theory Spec2Isabelle
  imports Main
begin

section \<open>Data model of the dashboard\<close>

text \<open>
  The view message \<^verbatim>\<open>ChatMessage\<close> and the per-channel state
  \<^verbatim>\<open>ChannelLiveState\<close> of the dashboard. The fields \<^verbatim>\<open>id\<close> and
  \<^verbatim>\<open>text\<close> are written \<open>id_msg\<close> and \<open>text_msg\<close>. A timestamp is a number
  of milliseconds since the epoch, an integer.
\<close>

datatype Sender = User | Bot

record ChatMessage =
  id_msg :: string
  sender :: Sender
  senderName :: "string option"
  text_msg :: string
  timestamp :: int

record ChannelLiveState =
  isTyping :: bool
  messages :: "ChatMessage list"
  historyLoaded :: bool

text \<open>\<^verbatim>\<open>Record<string, ChannelLiveState>\<close>: a missing key reads \<^verbatim>\<open>undefined\<close>.\<close>

type_synonym LiveStates = "string \<rightharpoonup> ChannelLiveState"

definition VISIBLE_MESSAGES :: nat where
  "VISIBLE_MESSAGES = 6"

definition MAX_MESSAGES :: nat where
  "MAX_MESSAGES = 50"

text \<open>
  \<^verbatim>\<open>xs.slice(-n)\<close> for \<open>n > 0\<close>: the start index is \<open>max (length xs - n) 0\<close>, which
  is the truncating subtraction on \<open>nat\<close>.
\<close>

definition slice_last :: "nat \<Rightarrow> 'a list \<Rightarrow> 'a list" where
  "slice_last n xs = drop (length xs - n) xs"

text \<open>
  What a reader of the state sees for a channel: \<^verbatim>\<open>liveState?.isTyping ?? false\<close>,
  \<^verbatim>\<open>liveState?.messages ?? []\<close> and the truth value of
  \<^verbatim>\<open>prev[channel.id]?.historyLoaded\<close>.
\<close>

definition typingOf :: "LiveStates \<Rightarrow> string \<Rightarrow> bool" where
  "typingOf s c = (case s c of None \<Rightarrow> False | Some st \<Rightarrow> isTyping st)"

definition messagesOf :: "LiveStates \<Rightarrow> string \<Rightarrow> ChatMessage list" where
  "messagesOf s c = (case s c of None \<Rightarrow> [] | Some st \<Rightarrow> messages st)"

definition loadedOf :: "LiveStates \<Rightarrow> string \<Rightarrow> bool" where
  "loadedOf s c = (case s c of None \<Rightarrow> False | Some st \<Rightarrow> historyLoaded st)"

section \<open>Merge of a fetched history into the live state\<close>

text \<open>
  The updater that the history fetch runs when it resolves, for the channel
  \<open>channelId\<close> and the converted \<open>history\<close>: a channel with no state is left
  alone; otherwise the history comes first, then the messages of the current
  state that are strictly newer than the last history message.
\<close>

definition lastHistoryTs :: "ChatMessage list \<Rightarrow> int" where
  "lastHistoryTs history = (if length history > 0 then timestamp (history ! (length history - 1)) else 0)"

definition newSseMessages :: "ChatMessage list \<Rightarrow> ChatMessage list \<Rightarrow> ChatMessage list" where
  "newSseMessages history sseMessages = filter (\<lambda>m. timestamp m > lastHistoryTs history) sseMessages"

definition mergeMessages :: "ChatMessage list \<Rightarrow> ChatMessage list \<Rightarrow> ChatMessage list" where
  "mergeMessages history sseMessages = slice_last MAX_MESSAGES (history @ newSseMessages history sseMessages)"

definition mergeHistory :: "string \<Rightarrow> ChatMessage list \<Rightarrow> LiveStates \<Rightarrow> LiveStates" where
  "mergeHistory channelId history current =
     (case current channelId of
        None \<Rightarrow> current
      | Some existing \<Rightarrow>
          current(channelId \<mapsto> existing\<lparr>messages := mergeMessages history (messages existing)\<rparr>))"

section \<open>Live events\<close>

text \<open>
  The payloads of the three events the dashboard handles. The field names carry
  a suffix for the event they belong to; the constant \<^verbatim>\<open>type\<close> tag is the
  record type itself.
\<close>

record InboundMessageEvent =
  agent_id_in :: string
  channel_id_in :: string
  sender_id_in :: string
  text_in :: string

record OutboundMessageEvent =
  agent_id_out :: string
  channel_id_out :: string
  text_out :: string

record TypingStateEvent =
  agent_id_ty :: string
  channel_id_ty :: string
  is_typing :: bool

text \<open>
  \<^verbatim>\<open>pushMessage\<close>: the state of the channel, or a fresh one when there is none,
  gets the message appended and is cut to its last \<open>MAX_MESSAGES\<close> messages.
\<close>

definition pushMessage :: "string \<Rightarrow> ChatMessage \<Rightarrow> LiveStates \<Rightarrow> LiveStates" where
  "pushMessage channelId message prev =
     (let existing = (case prev channelId of
                        None \<Rightarrow> \<lparr>isTyping = False, messages = [], historyLoaded = False\<rparr>
                      | Some e \<Rightarrow> e);
          msgs = slice_last MAX_MESSAGES (messages existing @ [message])
      in prev(channelId \<mapsto> existing\<lparr>messages := msgs\<rparr>))"

text \<open>
  The decimal rendering of an integer in a template string, for the value of
  \<^verbatim>\<open>Date.now()\<close>.
\<close>

fun digits :: "nat \<Rightarrow> string" where
  "digits n = (if n < 10 then [char_of (48 + n)] else digits (n div 10) @ [char_of (48 + n mod 10)])"

declare digits.simps [simp del]

definition showNumber :: "int \<Rightarrow> string" where
  "showNumber i = (if i < 0 then CHR ''-'' # digits (nat (- i)) else digits (nat i))"

text \<open>
  The handlers read the clock and the random generator. The three readings of
  one handler call are arguments here: \<open>idNow\<close> is the \<^verbatim>\<open>Date.now()\<close> inside the
  id, \<open>rnd\<close> the rendering of \<^verbatim>\<open>Math.random()\<close>, \<open>tsNow\<close> the
  \<^verbatim>\<open>Date.now()\<close> of the timestamp. The invalidation of the channel query that
  follows a message does not touch the live states and is left out.
\<close>

definition inboundChatMessage :: "InboundMessageEvent \<Rightarrow> int \<Rightarrow> string \<Rightarrow> int \<Rightarrow> ChatMessage" where
  "inboundChatMessage event idNow rnd tsNow =
     \<lparr>id_msg = ''in-'' @ showNumber idNow @ ''-'' @ rnd,
      sender = User,
      senderName = Some (sender_id_in event),
      text_msg = text_in event,
      timestamp = tsNow\<rparr>"

definition handleInboundMessage :: "InboundMessageEvent \<Rightarrow> int \<Rightarrow> string \<Rightarrow> int \<Rightarrow> LiveStates \<Rightarrow> LiveStates" where
  "handleInboundMessage event idNow rnd tsNow prev =
     pushMessage (channel_id_in event) (inboundChatMessage event idNow rnd tsNow) prev"

definition outboundChatMessage :: "OutboundMessageEvent \<Rightarrow> int \<Rightarrow> string \<Rightarrow> int \<Rightarrow> ChatMessage" where
  "outboundChatMessage event idNow rnd tsNow =
     \<lparr>id_msg = ''out-'' @ showNumber idNow @ ''-'' @ rnd,
      sender = Bot,
      senderName = None,
      text_msg = text_out event,
      timestamp = tsNow\<rparr>"

text \<open>
  The second updater of \<^verbatim>\<open>handleOutboundMessage\<close> and the updater of
  \<^verbatim>\<open>handleTypingState\<close> have one shape: they rebuild the entry of the channel
  with a given typing flag, with \<^verbatim>\<open>[]\<close> and \<^verbatim>\<open>false\<close> for a missing state.
\<close>

definition setTyping :: "string \<Rightarrow> bool \<Rightarrow> LiveStates \<Rightarrow> LiveStates" where
  "setTyping channelId b prev =
     prev(channelId \<mapsto>
       (case prev channelId of
          None \<Rightarrow> \<lparr>isTyping = b, messages = [], historyLoaded = False\<rparr>
        | Some e \<Rightarrow> e\<lparr>isTyping := b, messages := messages e, historyLoaded := historyLoaded e\<rparr>))"

definition handleOutboundMessage :: "OutboundMessageEvent \<Rightarrow> int \<Rightarrow> string \<Rightarrow> int \<Rightarrow> LiveStates \<Rightarrow> LiveStates" where
  "handleOutboundMessage event idNow rnd tsNow prev =
     setTyping (channel_id_out event) False
       (pushMessage (channel_id_out event) (outboundChatMessage event idNow rnd tsNow) prev)"

definition handleTypingState :: "TypingStateEvent \<Rightarrow> LiveStates \<Rightarrow> LiveStates" where
  "handleTypingState event prev = setTyping (channel_id_ty event) (is_typing event) prev"

section \<open>Loading the history\<close>

text \<open>
  A row of the message log as the API returns it. The field \<^verbatim>\<open>id\<close> is
  \<open>id_conv\<close>, and \<open>created_at\<close> holds the milliseconds that
  \<^verbatim>\<open>new Date(created_at).getTime()\<close> gives for the date string.
\<close>

datatype Role = RoleUser | RoleAssistant

record ConversationMessage =
  id_conv :: string
  role :: Role
  sender_name :: "string option"
  sender_id :: "string option"
  content :: string
  created_at :: int

definition toChatMessage :: "ConversationMessage \<Rightarrow> ChatMessage" where
  "toChatMessage message =
     \<lparr>id_msg = id_conv message,
      sender = (if role message = RoleUser then User else Bot),
      senderName = (case sender_name message of
                      Some n \<Rightarrow> Some n
                    | None \<Rightarrow> (if role message = RoleUser then sender_id message else None)),
      text_msg = content message,
      timestamp = created_at message\<rparr>"

text \<open>
  The dashboard state: the live states, the log of the calls of
  \<^verbatim>\<open>api.channelMessages\<close> made so far (\<open>dispatched\<close>, oldest first) and the
  channels whose fetch has neither resolved nor failed yet (\<open>pending\<close>).
\<close>

record Dashboard =
  liveStates :: LiveStates
  dispatched :: "string list"
  pending :: "string list"

definition initial :: Dashboard where
  "initial = \<lparr>liveStates = Map.empty, dispatched = [], pending = []\<rparr>"

text \<open>
  One round of the loop of the history effect, for the channel id \<open>c\<close>: a channel
  whose flag is set is skipped; any other gets the flag set and its fetch sent.
\<close>

definition loadChannel :: "Dashboard \<Rightarrow> string \<Rightarrow> Dashboard" where
  "loadChannel d c =
     (let prev = liveStates d in
      if (case prev c of None \<Rightarrow> False | Some e \<Rightarrow> historyLoaded e) then d
      else d\<lparr>liveStates := prev(c \<mapsto>
                 (case prev c of
                    None \<Rightarrow> \<lparr>isTyping = False, messages = [], historyLoaded = True\<rparr>
                  | Some e \<Rightarrow> e\<lparr>isTyping := isTyping e, messages := messages e, historyLoaded := True\<rparr>)),
              dispatched := dispatched d @ [c],
              pending := pending d @ [c]\<rparr>)"

definition historyEffect :: "string list \<Rightarrow> Dashboard \<Rightarrow> Dashboard" where
  "historyEffect channels d = foldl loadChannel d channels"

text \<open>
  What can happen to the dashboard: the channel list changes and the effect runs
  over the ids of its channels, a live event arrives, a fetch resolves with the
  rows of the log, or a fetch fails. A fetch can only resolve or fail while it is
  pending; the failure handler writes a warning and nothing else.
\<close>

datatype Step =
    ChannelsChanged "string list"
  | InboundMessage InboundMessageEvent int string int
  | OutboundMessage OutboundMessageEvent int string int
  | TypingState TypingStateEvent
  | HistoryResolved string "ConversationMessage list"
  | HistoryRejected string

fun step :: "Dashboard \<Rightarrow> Step \<Rightarrow> Dashboard option" where
  "step d (ChannelsChanged channels) = Some (historyEffect channels d)"
| "step d (InboundMessage event idNow rnd tsNow) =
     Some (d\<lparr>liveStates := handleInboundMessage event idNow rnd tsNow (liveStates d)\<rparr>)"
| "step d (OutboundMessage event idNow rnd tsNow) =
     Some (d\<lparr>liveStates := handleOutboundMessage event idNow rnd tsNow (liveStates d)\<rparr>)"
| "step d (TypingState event) =
     Some (d\<lparr>liveStates := handleTypingState event (liveStates d)\<rparr>)"
| "step d (HistoryResolved c rows) =
     (if c \<in> set (pending d)
      then Some (d\<lparr>liveStates := mergeHistory c (map toChatMessage rows) (liveStates d),
                    pending := remove1 c (pending d)\<rparr>)
      else None)"
| "step d (HistoryRejected c) =
     (if c \<in> set (pending d) then Some (d\<lparr>pending := remove1 c (pending d)\<rparr>) else None)"

fun run :: "Dashboard \<Rightarrow> Step list \<Rightarrow> Dashboard option" where
  "run d [] = Some d"
| "run d (e # es) = (case step d e of None \<Rightarrow> None | Some d' \<Rightarrow> run d' es)"

section \<open>The stream client\<close>

text \<open>
  The hook \<^verbatim>\<open>useEventSource\<close> runs against three things of the browser: the
  \<^verbatim>\<open>EventSource\<close> objects it creates, the timers it sets, and
  \<^verbatim>\<open>JSON.parse\<close>. An event source is closed or not and has a listener for
  a set of event types; it delivers frames and errors only while it is not
  closed. A timer is pending until it fires or is cleared. The handlers are
  values of a type \<open>'h\<close>; whether a call of a handler throws is the function
  \<open>throws\<close>; \<open>jsonParse\<close> gives \<open>None\<close> where \<^verbatim>\<open>JSON.parse\<close> throws.
\<close>

datatype 'j Payload = Parsed 'j | Raw string

record MessageEvent =
  event_type :: string
  data :: string

record EventSource =
  closed :: bool
  listeners :: "string set"

text \<open>
  The three refs of the hook, the event sources created so far (a source is
  known by its position), the pending timers with their delays, the id the next
  \<^verbatim>\<open>setTimeout\<close> returns (ids are positive), and the log of the handler
  calls, oldest first.
\<close>

record ('h, 'j) Client =
  handlersRef :: "string \<rightharpoonup> 'h"
  reconnectTimeout :: "nat option"
  eventSourceRef :: "nat option"
  sources :: "EventSource list"
  timers :: "(nat \<times> nat) list"
  nextTimer :: nat
  invoked :: "('h \<times> 'j Payload) list"

definition initialClient :: "(string \<rightharpoonup> 'h) \<Rightarrow> ('h, 'j) Client" where
  "initialClient handlers =
     \<lparr>handlersRef = handlers, reconnectTimeout = None, eventSourceRef = None,
      sources = [], timers = [], nextTimer = 1, invoked = []\<rparr>"

definition closeSource :: "nat \<Rightarrow> EventSource list \<Rightarrow> EventSource list" where
  "closeSource i srcs = (if i < length srcs then srcs[i := (srcs ! i)\<lparr>closed := True\<rparr>] else srcs)"

text \<open>
  \<^verbatim>\<open>connect\<close>: the source of the ref, if any, is closed; a new source gets a
  listener for each key the handler table has now, and becomes the source of
  the ref.
\<close>

definition connect :: "('h, 'j) Client \<Rightarrow> ('h, 'j) Client" where
  "connect cl =
     (let srcs = (case eventSourceRef cl of
                    Some i \<Rightarrow> closeSource i (sources cl)
                  | None \<Rightarrow> sources cl);
          source = \<lparr>closed = False, listeners = dom (handlersRef cl)\<rparr>
      in cl\<lparr>sources := srcs @ [source], eventSourceRef := Some (length srcs)\<rparr>)"

text \<open>
  The listener that \<open>connect\<close> adds for \<open>eventType\<close>. The call of the handler
  is inside the \<^verbatim>\<open>try\<close>: when the handler throws on the parsed value, the
  \<^verbatim>\<open>catch\<close> calls it again with the raw data. The table is read when the
  frame arrives, and a type with no entry then calls nothing.
\<close>

definition callHandler :: "string \<Rightarrow> 'j Payload \<Rightarrow> ('h, 'j) Client \<Rightarrow> ('h, 'j) Client" where
  "callHandler eventType payload cl =
     (case handlersRef cl eventType of
        None \<Rightarrow> cl
      | Some h \<Rightarrow> cl\<lparr>invoked := invoked cl @ [(h, payload)]\<rparr>)"

definition handlerThrows :: "('h \<Rightarrow> 'j Payload \<Rightarrow> bool) \<Rightarrow> string \<Rightarrow> 'j Payload \<Rightarrow> ('h, 'j) Client \<Rightarrow> bool" where
  "handlerThrows throws eventType payload cl =
     (case handlersRef cl eventType of None \<Rightarrow> False | Some h \<Rightarrow> throws h payload)"

definition listener ::
  "(string \<Rightarrow> 'j option) \<Rightarrow> ('h \<Rightarrow> 'j Payload \<Rightarrow> bool) \<Rightarrow> string \<Rightarrow> MessageEvent \<Rightarrow> ('h, 'j) Client \<Rightarrow> ('h, 'j) Client" where
  "listener jsonParse throws eventType event cl =
     (case jsonParse (data event) of
        None \<Rightarrow> callHandler eventType (Raw (data event)) cl
      | Some v \<Rightarrow>
          (if handlerThrows throws eventType (Parsed v) cl
           then callHandler eventType (Raw (data event)) (callHandler eventType (Parsed v) cl)
           else callHandler eventType (Parsed v) cl))"

text \<open>
  \<^verbatim>\<open>source.onerror\<close> of the source \<open>i\<close>: the source is closed and a timer of
  2000 milliseconds that calls \<open>connect\<close> is set; its id goes to the ref.
\<close>

definition onerror :: "nat \<Rightarrow> ('h, 'j) Client \<Rightarrow> ('h, 'j) Client" where
  "onerror i cl =
     cl\<lparr>sources := closeSource i (sources cl),
        reconnectTimeout := Some (nextTimer cl),
        timers := timers cl @ [(nextTimer cl, 2000)],
        nextTimer := nextTimer cl + 1\<rparr>"

text \<open>
  The effect of the hook and its cleanup. \<^verbatim>\<open>if (reconnectTimeout.current)\<close>
  is the test of a number for being non-zero; \<^verbatim>\<open>clearTimeout\<close> of an id that
  is not pending does nothing.
\<close>

definition clearTimeout :: "nat \<Rightarrow> (nat \<times> nat) list \<Rightarrow> (nat \<times> nat) list" where
  "clearTimeout t ts = filter (\<lambda>p. fst p \<noteq> t) ts"

definition effect :: "bool \<Rightarrow> ('h, 'j) Client \<Rightarrow> ('h, 'j) Client" where
  "effect enabled cl = (if \<not> enabled then cl else connect cl)"

definition cleanup :: "('h, 'j) Client \<Rightarrow> ('h, 'j) Client" where
  "cleanup cl =
     cl\<lparr>timers := (case reconnectTimeout cl of
                     Some t \<Rightarrow> (if t \<noteq> 0 then clearTimeout t (timers cl) else timers cl)
                   | None \<Rightarrow> timers cl),
        sources := (case eventSourceRef cl of
                      Some i \<Rightarrow> closeSource i (sources cl)
                    | None \<Rightarrow> sources cl)\<rparr>"

text \<open>
  What can happen while the hook is mounted: a render stores a new handler
  table in the ref, a source that is not closed delivers a frame or an error,
  a pending timer fires. A frame runs the listener of its type, if the source
  has one.
\<close>

datatype 'h ClientStep =
    Render "string \<rightharpoonup> 'h"
  | Frame nat MessageEvent
  | ConnectionError nat
  | TimerFires nat

definition isOpen :: "nat \<Rightarrow> ('h, 'j) Client \<Rightarrow> bool" where
  "isOpen i cl = (i < length (sources cl) \<and> \<not> closed (sources cl ! i))"

fun clientStep ::
  "(string \<Rightarrow> 'j option) \<Rightarrow> ('h \<Rightarrow> 'j Payload \<Rightarrow> bool) \<Rightarrow> ('h, 'j) Client \<Rightarrow> 'h ClientStep \<Rightarrow> ('h, 'j) Client option" where
  "clientStep jsonParse throws cl (Render handlers) = Some (cl\<lparr>handlersRef := handlers\<rparr>)"
| "clientStep jsonParse throws cl (Frame i event) =
     (if isOpen i cl
      then Some (if event_type event \<in> listeners (sources cl ! i)
                 then listener jsonParse throws (event_type event) event cl
                 else cl)
      else None)"
| "clientStep jsonParse throws cl (ConnectionError i) =
     (if isOpen i cl then Some (onerror i cl) else None)"
| "clientStep jsonParse throws cl (TimerFires t) =
     (if t \<in> fst ` set (timers cl)
      then Some (connect (cl\<lparr>timers := clearTimeout t (timers cl)\<rparr>))
      else None)"

fun clientRun ::
  "(string \<Rightarrow> 'j option) \<Rightarrow> ('h \<Rightarrow> 'j Payload \<Rightarrow> bool) \<Rightarrow> ('h, 'j) Client \<Rightarrow> 'h ClientStep list \<Rightarrow> ('h, 'j) Client option" where
  "clientRun jsonParse throws cl [] = Some cl"
| "clientRun jsonParse throws cl (e # es) =
     (case clientStep jsonParse throws cl e of
        None \<Rightarrow> None
      | Some cl' \<Rightarrow> clientRun jsonParse throws cl' es)"

section \<open>Invariant of the dashboard and scenarios\<close>

text \<open>
  What holds of the dashboard at all times: no channel was fetched twice, the
  pending fetches are fetches that were sent, and the flag of a channel is set
  exactly when its fetch was sent.
\<close>

definition dashboardInv :: "Dashboard \<Rightarrow> bool" where
  "dashboardInv d \<longleftrightarrow>
     distinct (dispatched d) \<and> distinct (pending d) \<and>
     set (pending d) \<subseteq> set (dispatched d) \<and>
     (\<forall>c. loadedOf (liveStates d) c = (c \<in> set (dispatched d)))"

text \<open>An inbound message for the channel \<open>c1\<close>, used in the examples.\<close>

definition c1_in :: InboundMessageEvent where
  "c1_in = \<lparr>agent_id_in = ''a'', channel_id_in = ''c1'', sender_id_in = ''u1'', text_in = ''hi''\<rparr>"

text \<open>
  The channel \<open>c2\<close> of the example: a history with the timestamps 100, 200 and
  300, and a state that holds one live message of timestamp 250 while the fetch
  is on its way.
\<close>

definition c2_rows :: "ConversationMessage list" where
  "c2_rows =
     [\<lparr>id_conv = ''m1'', role = RoleUser, sender_name = Some ''Ann'', sender_id = Some ''u1'', content = ''one'', created_at = 100\<rparr>,
      \<lparr>id_conv = ''m2'', role = RoleAssistant, sender_name = None, sender_id = None, content = ''two'', created_at = 200\<rparr>,
      \<lparr>id_conv = ''m3'', role = RoleUser, sender_name = None, sender_id = Some ''u1'', content = ''three'', created_at = 300\<rparr>]"

definition c2_in :: InboundMessageEvent where
  "c2_in = \<lparr>agent_id_in = ''a'', channel_id_in = ''c2'', sender_id_in = ''u1'', text_in = ''two and a half''\<rparr>"

definition c2_live :: ChatMessage where
  "c2_live = inboundChatMessage c2_in 250 ''0.5'' 250"

definition c2_existing :: ChannelLiveState where
  "c2_existing = \<lparr>isTyping = False, messages = [c2_live], historyLoaded = True\<rparr>"

definition c2_state :: LiveStates where
  "c2_state = [''c2'' \<mapsto> c2_existing]"

text \<open>
  The steps that can change the typing indicator of a channel, and the steps
  that bring a live message for a channel.
\<close>

fun changesTyping :: "string \<Rightarrow> Step \<Rightarrow> bool" where
  "changesTyping c (TypingState event) = (channel_id_ty event = c)"
| "changesTyping c (OutboundMessage event idNow rnd tsNow) = (channel_id_out event = c)"
| "changesTyping c _ = False"

fun liveMessageFor :: "string \<Rightarrow> Step \<Rightarrow> bool" where
  "liveMessageFor c (InboundMessage event idNow rnd tsNow) = (channel_id_in event = c)"
| "liveMessageFor c (OutboundMessage event idNow rnd tsNow) = (channel_id_out event = c)"
| "liveMessageFor c _ = False"

text \<open>More of the example: the assistant starts typing in \<open>c2\<close> and answers, and
  the dashboard while the fetch of \<open>c2\<close> is on its way.\<close>

definition c2_typing :: TypingStateEvent where
  "c2_typing = \<lparr>agent_id_ty = ''a'', channel_id_ty = ''c2'', is_typing = True\<rparr>"

definition c2_out :: OutboundMessageEvent where
  "c2_out = \<lparr>agent_id_out = ''a'', channel_id_out = ''c2'', text_out = ''done''\<rparr>"

definition c1_out :: OutboundMessageEvent where
  "c1_out = \<lparr>agent_id_out = ''a'', channel_id_out = ''c1'', text_out = ''hello''\<rparr>"

definition c2_loading :: Dashboard where
  "c2_loading = \<lparr>liveStates = c2_state, dispatched = [''c2''], pending = [''c2'']\<rparr>"

text \<open>
  The order and the identity the message sequence of a channel is meant to
  have: ascending timestamps, and no id twice.
\<close>

definition sortedByTimestamp :: "ChatMessage list \<Rightarrow> bool" where
  "sortedByTimestamp ms = sorted (map timestamp ms)"

definition distinctIds :: "ChatMessage list \<Rightarrow> bool" where
  "distinctIds ms = distinct (map id_msg ms)"

text \<open>
  One more run of the example: the history of \<open>c2\<close> is merged and then two
  live messages arrive, both at the clock reading 250 and with the same random
  number.
\<close>

definition c2_late_run :: "Step list" where
  "c2_late_run =
     [ChannelsChanged [''c2''], HistoryResolved ''c2'' c2_rows,
      InboundMessage c2_in 250 ''0.5'' 250, InboundMessage c2_in 250 ''0.5'' 250]"

text \<open>
  What holds of the stream client while it is mounted: a source that is not
  closed is the source of the ref, a pending timer is the timer of the ref and
  has a non-zero id, and no timer is pending while a source is open. After the
  cleanup the client is stopped: no source is open and no timer is pending.
\<close>

definition clientInv :: "('h, 'j) Client \<Rightarrow> bool" where
  "clientInv cl \<longleftrightarrow>
     (\<forall>i. isOpen i cl \<longrightarrow> eventSourceRef cl = Some i) \<and>
     (\<forall>p \<in> set (timers cl). reconnectTimeout cl = Some (fst p) \<and> fst p \<noteq> 0) \<and>
     (timers cl \<noteq> [] \<longrightarrow> (\<forall>i. \<not> isOpen i cl)) \<and>
     nextTimer cl \<noteq> 0"

definition stopped :: "('h, 'j) Client \<Rightarrow> bool" where
  "stopped cl \<longleftrightarrow> (\<forall>i. \<not> isOpen i cl) \<and> timers cl = []"

text \<open>
  A client for the examples: its handlers are numbers, the only payload that
  parses is \<^verbatim>\<open>{}\<close>, and a handler either never throws or throws on every
  parsed value.
\<close>

definition demo_handlers :: "string \<rightharpoonup> nat" where
  "demo_handlers = [''inbound_message'' \<mapsto> 1, ''outbound_message'' \<mapsto> 2, ''typing_state'' \<mapsto> 3]"

definition demo_parse :: "string \<Rightarrow> string option" where
  "demo_parse s = (if s = ''{}'' then Some ''{}'' else None)"

definition demo_throws :: "nat \<Rightarrow> string Payload \<Rightarrow> bool" where
  "demo_throws h p = False"

definition demo_frame :: MessageEvent where
  "demo_frame = \<lparr>event_type = ''typing_state'', data = ''{}''\<rparr>"

definition demo_raw_frame :: MessageEvent where
  "demo_raw_frame = \<lparr>event_type = ''typing_state'', data = ''not json''\<rparr>"

definition demo_client :: "(nat, string) Client" where
  "demo_client = effect True (initialClient demo_handlers)"

definition demo_strict_throws :: "nat \<Rightarrow> string Payload \<Rightarrow> bool" where
  "demo_strict_throws h p = (case p of Parsed v \<Rightarrow> True | Raw s \<Rightarrow> False)"

text \<open>
  A render keeps the keys when the table it stores has the given key set; the
  listeners match when the table has that key set and so has every open source.
\<close>

fun keepsKeys :: "string set \<Rightarrow> 'h ClientStep \<Rightarrow> bool" where
  "keepsKeys D (Render handlers) = (dom handlers = D)"
| "keepsKeys D _ = True"

definition listenersMatch :: "string set \<Rightarrow> ('h, 'j) Client \<Rightarrow> bool" where
  "listenersMatch D cl \<longleftrightarrow>
     dom (handlersRef cl) = D \<and> (\<forall>i. isOpen i cl \<longrightarrow> listeners (sources cl ! i) = D)"

text \<open>
  One more example: after the mount a render stores a table with a handler for
  one more event type, and a frame of that type arrives.
\<close>

definition demo_late_handlers :: "string \<rightharpoonup> nat" where
  "demo_late_handlers = demo_handlers(''process_event'' \<mapsto> 4)"

definition demo_process_frame :: MessageEvent where
  "demo_process_frame = \<lparr>event_type = ''process_event'', data = ''{}''\<rparr>"

definition demo_rendered :: "(nat, string) Client" where
  "demo_rendered = demo_client\<lparr>handlersRef := demo_late_handlers\<rparr>"

section \<open>The readers after each operation\<close>


lemma length_slice_last: "length (slice_last n xs) \<le> n"
  by (simp add: slice_last_def)

lemma set_slice_last: "set (slice_last n xs) \<subseteq> set xs"
  by (simp add: slice_last_def set_drop_subset)

lemma lastHistoryTs_last: "lastHistoryTs history = (if history = [] then 0 else timestamp (last history))"
  by (simp add: lastHistoryTs_def last_conv_nth)

lemma messagesOf_mergeHistory:
  "messagesOf (mergeHistory c history s) c' =
     (if c' = c \<and> s c \<noteq> None then mergeMessages history (messagesOf s c) else messagesOf s c')"
  by (auto simp: mergeHistory_def messagesOf_def split: option.splits)

lemma typingOf_mergeHistory: "typingOf (mergeHistory c history s) c' = typingOf s c'"
  by (auto simp: mergeHistory_def typingOf_def split: option.splits)

lemma loadedOf_mergeHistory: "loadedOf (mergeHistory c history s) c' = loadedOf s c'"
  by (auto simp: mergeHistory_def loadedOf_def split: option.splits)

lemma messagesOf_pushMessage:
  "messagesOf (pushMessage c m s) c' =
     (if c' = c then slice_last MAX_MESSAGES (messagesOf s c @ [m]) else messagesOf s c')"
  by (auto simp: pushMessage_def messagesOf_def Let_def split: option.splits)

lemma typingOf_pushMessage: "typingOf (pushMessage c m s) c' = typingOf s c'"
  by (auto simp: pushMessage_def typingOf_def Let_def split: option.splits)

lemma loadedOf_pushMessage: "loadedOf (pushMessage c m s) c' = loadedOf s c'"
  by (auto simp: pushMessage_def loadedOf_def Let_def split: option.splits)

lemma pushMessage_other: "c' \<noteq> c \<Longrightarrow> pushMessage c m s c' = s c'"
  by (simp add: pushMessage_def Let_def)

lemma messagesOf_setTyping: "messagesOf (setTyping c b s) c' = messagesOf s c'"
  by (auto simp: setTyping_def messagesOf_def split: option.splits)

lemma typingOf_setTyping: "typingOf (setTyping c b s) c' = (if c' = c then b else typingOf s c')"
  by (auto simp: setTyping_def typingOf_def split: option.splits)

lemma loadedOf_setTyping: "loadedOf (setTyping c b s) c' = loadedOf s c'"
  by (auto simp: setTyping_def loadedOf_def split: option.splits)

lemma setTyping_other: "c' \<noteq> c \<Longrightarrow> setTyping c b s c' = s c'"
  by (simp add: setTyping_def)

lemma mergeHistory_other: "c' \<noteq> c \<Longrightarrow> mergeHistory c h s c' = s c'"
  by (simp add: mergeHistory_def split: option.splits)

lemmas readers_simps =
  messagesOf_mergeHistory typingOf_mergeHistory loadedOf_mergeHistory
  messagesOf_pushMessage typingOf_pushMessage loadedOf_pushMessage
  messagesOf_setTyping typingOf_setTyping loadedOf_setTyping
  handleInboundMessage_def handleOutboundMessage_def handleTypingState_def

subsection \<open>The history effect\<close>

lemma loadChannel_loaded: "loadedOf (liveStates d) c \<Longrightarrow> loadChannel d c = d"
  by (simp add: loadChannel_def loadedOf_def Let_def)

lemma loadChannel_fresh:
  "\<not> loadedOf (liveStates d) c \<Longrightarrow>
     dispatched (loadChannel d c) = dispatched d @ [c] \<and>
     pending (loadChannel d c) = pending d @ [c]"
  by (simp add: loadChannel_def loadedOf_def Let_def)

lemma loadedOf_loadChannel:
  "loadedOf (liveStates (loadChannel d c)) c' = (c' = c \<or> loadedOf (liveStates d) c')"
  by (auto simp: loadChannel_def loadedOf_def Let_def split: option.splits)

lemma messagesOf_loadChannel:
  "messagesOf (liveStates (loadChannel d c)) c' = messagesOf (liveStates d) c'"
  by (auto simp: loadChannel_def messagesOf_def Let_def split: option.splits)

lemma typingOf_loadChannel:
  "typingOf (liveStates (loadChannel d c)) c' = typingOf (liveStates d) c'"
  by (auto simp: loadChannel_def typingOf_def Let_def split: option.splits)

lemma messagesOf_historyEffect:
  "messagesOf (liveStates (historyEffect cs d)) c' = messagesOf (liveStates d) c'"
  unfolding historyEffect_def
  by (induction cs arbitrary: d) (simp_all add: messagesOf_loadChannel)

lemma typingOf_historyEffect:
  "typingOf (liveStates (historyEffect cs d)) c' = typingOf (liveStates d) c'"
  unfolding historyEffect_def
  by (induction cs arbitrary: d) (simp_all add: typingOf_loadChannel)

lemma loadedOf_historyEffect:
  "loadedOf (liveStates (historyEffect cs d)) c' = (c' \<in> set cs \<or> loadedOf (liveStates d) c')"
  unfolding historyEffect_def
  by (induction cs arbitrary: d) (auto simp: loadedOf_loadChannel)

lemma dashboardInv_initial: "dashboardInv initial"
  by (simp add: dashboardInv_def initial_def loadedOf_def)

lemma dashboardInv_loadChannel: "dashboardInv d \<Longrightarrow> dashboardInv (loadChannel d c)"
proof (cases "loadedOf (liveStates d) c")
  case True
  assume "dashboardInv d"
  then show ?thesis using True by (simp add: loadChannel_loaded)
next
  case False
  assume inv: "dashboardInv d"
  have f: "dispatched (loadChannel d c) = dispatched d @ [c]" "pending (loadChannel d c) = pending d @ [c]"
    using loadChannel_fresh [OF False] by simp_all
  have nd: "c \<notin> set (dispatched d)" using inv False by (simp add: dashboardInv_def)
  then have np: "c \<notin> set (pending d)" using inv by (auto simp: dashboardInv_def)
  show ?thesis
    unfolding dashboardInv_def f loadedOf_loadChannel
    using inv nd np by (auto simp: dashboardInv_def)
qed

lemma dashboardInv_historyEffect: "dashboardInv d \<Longrightarrow> dashboardInv (historyEffect cs d)"
  unfolding historyEffect_def
  by (induction cs arbitrary: d) (simp_all add: dashboardInv_loadChannel)

lemma dashboardInv_step: "dashboardInv d \<Longrightarrow> step d e = Some d' \<Longrightarrow> dashboardInv d'"
proof (cases e)
  case (ChannelsChanged cs)
  assume "dashboardInv d" "step d e = Some d'"
  then show ?thesis using ChannelsChanged by (auto simp: dashboardInv_historyEffect)
next
  case (HistoryResolved c rows)
  assume "dashboardInv d" "step d e = Some d'"
  then show ?thesis using HistoryResolved
    by (auto simp: dashboardInv_def loadedOf_mergeHistory split: if_splits dest: notin_set_remove1)
next
  case (HistoryRejected c)
  assume "dashboardInv d" "step d e = Some d'"
  then show ?thesis using HistoryRejected
    by (auto simp: dashboardInv_def split: if_splits dest: notin_set_remove1)
qed (auto simp: dashboardInv_def readers_simps)

lemma dashboardInv_run: "dashboardInv d \<Longrightarrow> run d es = Some d' \<Longrightarrow> dashboardInv d'"
  by (induction es arbitrary: d) (auto split: option.splits dest: dashboardInv_step)

lemma dispatched_step_mono:
  "step d e = Some d' \<Longrightarrow> loadedOf (liveStates d) c \<Longrightarrow> loadedOf (liveStates d') c"
  by (cases e) (auto simp: readers_simps loadedOf_historyEffect split: if_splits)

subsection \<open>Runs of the dashboard\<close>

lemma run_append:
  "run d (es @ es') = (case run d es of None \<Rightarrow> None | Some d' \<Rightarrow> run d' es')"
  by (induction es arbitrary: d) (auto split: option.splits)

lemma loadedOf_run:
  "run d es = Some d' \<Longrightarrow> loadedOf (liveStates d) c \<Longrightarrow> loadedOf (liveStates d') c"
  by (induction es arbitrary: d) (auto split: option.splits dest: dispatched_step_mono)

lemma count_list_distinct: "distinct xs \<Longrightarrow> count_list xs x = (if x \<in> set xs then 1 else 0)"
  by (induction xs) auto

text \<open>The definitions that evaluate a run on given steps.\<close>

lemmas eval_simps =
  initial_def historyEffect_def loadChannel_def handleInboundMessage_def handleOutboundMessage_def
  handleTypingState_def pushMessage_def setTyping_def mergeHistory_def mergeMessages_def
  newSseMessages_def lastHistoryTs_def slice_last_def MAX_MESSAGES_def inboundChatMessage_def
  outboundChatMessage_def toChatMessage_def loadedOf_def messagesOf_def typingOf_def Let_def

lemma typingOf_step:
  "step d e = Some d' \<Longrightarrow> \<not> changesTyping c e \<Longrightarrow> typingOf (liveStates d') c = typingOf (liveStates d) c"
  by (cases e) (auto simp: readers_simps typingOf_historyEffect split: if_splits)

lemma typingOf_run:
  "run d es = Some d' \<Longrightarrow> \<forall>e \<in> set es. \<not> changesTyping c e \<Longrightarrow>
     typingOf (liveStates d') c = typingOf (liveStates d) c"
proof (induction es arbitrary: d)
  case Nil
  then show ?case by simp
next
  case (Cons e es)
  from Cons.prems(1) obtain d1 where s: "step d e = Some d1" and r: "run d1 es = Some d'"
    by (auto split: option.splits)
  have "typingOf (liveStates d') c = typingOf (liveStates d1) c"
    using Cons.IH [OF r] Cons.prems(2) by simp
  also have "\<dots> = typingOf (liveStates d) c"
    using typingOf_step [OF s] Cons.prems(2) by simp
  finally show ?case .
qed

lemmas scenario_defs =
  c1_in_def c1_out_def c2_in_def c2_out_def c2_typing_def c2_rows_def c2_live_def c2_existing_def
  c2_state_def c2_loading_def

subsection \<open>A channel with no live message\<close>

lemma pending_loadChannel:
  "c \<in> set (pending (loadChannel d c')) \<Longrightarrow> c \<in> set (pending d) \<or> \<not> loadedOf (liveStates d) c"
  by (auto simp: loadChannel_def loadedOf_def Let_def split: if_splits option.splits)

lemma pending_historyEffect:
  "c \<in> set (pending (historyEffect cs d)) \<Longrightarrow> c \<in> set (pending d) \<or> \<not> loadedOf (liveStates d) c"
  unfolding historyEffect_def
proof (induction cs arbitrary: d)
  case Nil
  then show ?case by simp
next
  case (Cons a cs)
  then have "c \<in> set (pending (loadChannel d a)) \<or> \<not> loadedOf (liveStates (loadChannel d a)) c"
    by simp
  then show ?case
    using pending_loadChannel [of c d a] by (auto simp: loadedOf_loadChannel)
qed

lemma quiet_step:
  assumes inv: "dashboardInv d" and s: "step d e = Some d'" and q: "\<not> liveMessageFor c e"
    and j: "c \<in> set (pending d) \<or> c \<notin> set (dispatched d) \<longrightarrow> messagesOf (liveStates d) c = []"
  shows "c \<in> set (pending d') \<or> c \<notin> set (dispatched d') \<longrightarrow> messagesOf (liveStates d') c = []"
proof (cases e)
  case (ChannelsChanged cs)
  then have d': "d' = historyEffect cs d" using s by simp
  have inv': "dashboardInv d'" using inv s by (rule dashboardInv_step)
  show ?thesis
  proof
    assume a: "c \<in> set (pending d') \<or> c \<notin> set (dispatched d')"
    have "c \<in> set (pending d) \<or> c \<notin> set (dispatched d)"
    proof (cases "c \<in> set (pending d')")
      case True
      then show ?thesis
        using pending_historyEffect [of c cs d] inv d' by (auto simp: dashboardInv_def)
    next
      case False
      then have "\<not> loadedOf (liveStates d') c" using a inv' by (simp add: dashboardInv_def)
      then have "\<not> loadedOf (liveStates d) c" by (simp add: d' loadedOf_historyEffect)
      then show ?thesis using inv by (simp add: dashboardInv_def)
    qed
    then show "messagesOf (liveStates d') c = []"
      using j by (simp add: d' messagesOf_historyEffect)
  qed
next
  case (InboundMessage ev i r t)
  then show ?thesis using s q j by (auto simp: readers_simps)
next
  case (OutboundMessage ov i r t)
  then show ?thesis using s q j by (auto simp: readers_simps)
next
  case (TypingState tv)
  then show ?thesis using s j by (auto simp: readers_simps)
next
  case (HistoryResolved c' rows)
  show ?thesis
  proof (cases "c' = c")
    case True
    then show ?thesis using HistoryResolved s inv
      by (auto simp: dashboardInv_def split: if_splits)
  next
    case False
    then show ?thesis using HistoryResolved s j
      by (auto simp: readers_simps split: if_splits)
  qed
next
  case (HistoryRejected c')
  show ?thesis
  proof (cases "c' = c")
    case True
    then show ?thesis using HistoryRejected s inv
      by (auto simp: dashboardInv_def split: if_splits)
  next
    case False
    then show ?thesis using HistoryRejected s j
      by (auto split: if_splits)
  qed
qed

lemma quiet_run:
  "dashboardInv d \<Longrightarrow> run d es = Some d' \<Longrightarrow> \<forall>e \<in> set es. \<not> liveMessageFor c e \<Longrightarrow>
   (c \<in> set (pending d) \<or> c \<notin> set (dispatched d) \<longrightarrow> messagesOf (liveStates d) c = []) \<Longrightarrow>
   (c \<in> set (pending d') \<or> c \<notin> set (dispatched d') \<longrightarrow> messagesOf (liveStates d') c = [])"
proof (induction es arbitrary: d)
  case Nil
  then show ?case by simp
next
  case (Cons e es)
  from Cons.prems(2) obtain d1 where s: "step d e = Some d1" and r: "run d1 es = Some d'"
    by (auto split: option.splits)
  have inv1: "dashboardInv d1" using Cons.prems(1) s by (rule dashboardInv_step)
  have q: "\<not> liveMessageFor c e" and qs: "\<forall>e \<in> set es. \<not> liveMessageFor c e"
    using Cons.prems(3) by simp_all
  have j1: "c \<in> set (pending d1) \<or> c \<notin> set (dispatched d1) \<longrightarrow> messagesOf (liveStates d1) c = []"
    using quiet_step [OF Cons.prems(1) s q Cons.prems(4)] .
  show ?case using Cons.IH [OF inv1 r qs j1] .
qed

subsection \<open>Order, identity and length of a sequence\<close>

lemma sortedByTimestamp_slice_last: "sortedByTimestamp xs \<Longrightarrow> sortedByTimestamp (slice_last n xs)"
  by (simp add: sortedByTimestamp_def slice_last_def drop_map [symmetric] sorted_wrt_drop del: drop_map)

lemma distinctIds_slice_last: "distinctIds xs \<Longrightarrow> distinctIds (slice_last n xs)"
  by (simp add: distinctIds_def slice_last_def drop_map [symmetric] del: drop_map)

lemma sorted_le_lastHistoryTs:
  "sortedByTimestamp history \<Longrightarrow> m \<in> set history \<Longrightarrow> timestamp m \<le> lastHistoryTs history"
proof -
  assume s: "sortedByTimestamp history" and m: "m \<in> set history"
  then have ne: "history \<noteq> []" by auto
  obtain i where i: "i < length history" "history ! i = m"
    using m by (auto simp: in_set_conv_nth)
  have "map timestamp history ! i \<le> map timestamp history ! (length history - 1)"
    using s i ne by (intro sorted_nth_mono) (auto simp: sortedByTimestamp_def)
  then show ?thesis
    using i ne by (simp add: lastHistoryTs_def)
qed

lemma sortedByTimestamp_mergeMessages:
  assumes h: "sortedByTimestamp history" and l: "sortedByTimestamp live"
  shows "sortedByTimestamp (mergeMessages history live)"
proof -
  have f: "sorted (map timestamp (newSseMessages history live))"
    using l by (simp add: sortedByTimestamp_def newSseMessages_def sorted_map sorted_wrt_filter)
  have "\<forall>x \<in> set history. \<forall>y \<in> set (newSseMessages history live). timestamp x \<le> timestamp y"
    using sorted_le_lastHistoryTs [OF h] by (fastforce simp: newSseMessages_def)
  then have "sortedByTimestamp (history @ newSseMessages history live)"
    using h f by (simp add: sortedByTimestamp_def sorted_append)
  then show ?thesis
    unfolding mergeMessages_def by (rule sortedByTimestamp_slice_last)
qed

lemma distinctIds_mergeMessages:
  assumes "distinctIds history" and "distinctIds live"
    and "id_msg ` set history \<inter> id_msg ` set (newSseMessages history live) = {}"
  shows "distinctIds (mergeMessages history live)"
proof -
  have "distinct (map id_msg (newSseMessages history live))"
    using assms(2) by (simp add: distinctIds_def newSseMessages_def distinct_map_filter)
  then have "distinctIds (history @ newSseMessages history live)"
    using assms(1,3) by (simp add: distinctIds_def)
  then show ?thesis
    unfolding mergeMessages_def by (rule distinctIds_slice_last)
qed

lemma length_step:
  "step d e = Some d' \<Longrightarrow> \<forall>c. length (messagesOf (liveStates d) c) \<le> MAX_MESSAGES \<Longrightarrow>
     length (messagesOf (liveStates d') c) \<le> MAX_MESSAGES"
  by (cases e)
    (auto simp: readers_simps messagesOf_historyEffect mergeMessages_def length_slice_last
      split: if_splits)

lemma length_run:
  "run d es = Some d' \<Longrightarrow> \<forall>c. length (messagesOf (liveStates d) c) \<le> MAX_MESSAGES \<Longrightarrow>
     length (messagesOf (liveStates d') c) \<le> MAX_MESSAGES"
proof (induction es arbitrary: d c)
  case Nil
  then show ?case by simp
next
  case (Cons e es)
  from Cons.prems(1) obtain d1 where s: "step d e = Some d1" and r: "run d1 es = Some d'"
    by (auto split: option.splits)
  have "\<forall>c. length (messagesOf (liveStates d1) c) \<le> MAX_MESSAGES"
    using length_step [OF s Cons.prems(2)] by simp
  then show ?case using Cons.IH [OF r] by simp
qed

lemma filter_drop_filter: "filter P (drop n (filter P xs)) = drop n (filter P xs)"
  by (rule filter_True) (auto dest: in_set_dropD)

lemma mergeMessages_idem:
  assumes h: "\<forall>m \<in> set history. timestamp m \<le> lastHistoryTs history"
  shows "mergeMessages history (mergeMessages history live) = mergeMessages history live"
proof -
  define P where "P = (\<lambda>m :: ChatMessage. timestamp m > lastHistoryTs history)"
  define F where "F = filter P live"
  define k where "k = length (history @ F) - MAX_MESSAGES"
  have hf: "filter P (drop k history) = []"
  proof -
    have "\<And>x. x \<in> set (drop k history) \<Longrightarrow> \<not> P x"
      using h by (fastforce simp: P_def dest: in_set_dropD)
    then show ?thesis
      by (simp add: filter_empty_conv)
  qed
  have m: "mergeMessages history live = drop k history @ drop (k - length history) F"
    by (simp add: mergeMessages_def newSseMessages_def slice_last_def k_def F_def P_def)
  have "newSseMessages history (mergeMessages history live) = drop (k - length history) F"
    unfolding m newSseMessages_def P_def [symmetric]
    using hf by (simp add: F_def filter_drop_filter)
  then have "mergeMessages history (mergeMessages history live) =
      slice_last MAX_MESSAGES (history @ drop (k - length history) F)"
    by (simp add: mergeMessages_def)
  also have "\<dots> = drop k history @ drop (k - length history) F"
    by (cases "k \<le> length history") (auto simp: slice_last_def k_def)
  finally show ?thesis
    by (simp add: m)
qed

section \<open>The stream client step by step\<close>

lemma length_closeSource: "length (closeSource i srcs) = length srcs"
  by (simp add: closeSource_def)

lemma closed_closeSource:
  "j < length srcs \<Longrightarrow> closed (closeSource i srcs ! j) = (j = i \<or> closed (srcs ! j))"
  by (auto simp: closeSource_def nth_list_update)

lemma isOpen_connect:
  "isOpen j (connect cl) = (j = length (sources cl) \<or> (isOpen j cl \<and> eventSourceRef cl \<noteq> Some j))"
  by (auto simp: isOpen_def connect_def Let_def nth_append length_closeSource closed_closeSource
      split: option.splits)

lemma connect_fields:
  "handlersRef (connect cl) = handlersRef cl"
  "timers (connect cl) = timers cl"
  "reconnectTimeout (connect cl) = reconnectTimeout cl"
  "nextTimer (connect cl) = nextTimer cl"
  "invoked (connect cl) = invoked cl"
  "eventSourceRef (connect cl) = Some (length (sources cl))"
  "length (sources (connect cl)) = Suc (length (sources cl))"
  "listeners (sources (connect cl) ! length (sources cl)) = dom (handlersRef cl)"
  by (auto simp: connect_def Let_def length_closeSource nth_append split: option.splits)

lemma isOpen_timers_update: "isOpen j (cl\<lparr>timers := ts\<rparr>) = isOpen j cl"
  by (simp add: isOpen_def)

lemma isOpen_handlers_update: "isOpen j (cl\<lparr>handlersRef := hs\<rparr>) = isOpen j cl"
  by (simp add: isOpen_def)

lemma isOpen_onerror: "isOpen j (onerror i cl) = (isOpen j cl \<and> j \<noteq> i)"
  by (auto simp: isOpen_def onerror_def length_closeSource closed_closeSource)

lemma isOpen_cleanup:
  "isOpen j (cleanup cl) = (isOpen j cl \<and> eventSourceRef cl \<noteq> Some j)"
  by (auto simp: isOpen_def cleanup_def length_closeSource closed_closeSource split: option.splits)

lemma callHandler_fields:
  "handlersRef (callHandler t p cl) = handlersRef cl"
  "timers (callHandler t p cl) = timers cl"
  "reconnectTimeout (callHandler t p cl) = reconnectTimeout cl"
  "eventSourceRef (callHandler t p cl) = eventSourceRef cl"
  "nextTimer (callHandler t p cl) = nextTimer cl"
  "sources (callHandler t p cl) = sources cl"
  by (simp_all add: callHandler_def split: option.splits)

lemma listener_fields:
  "handlersRef (listener jp th t ev cl) = handlersRef cl"
  "timers (listener jp th t ev cl) = timers cl"
  "reconnectTimeout (listener jp th t ev cl) = reconnectTimeout cl"
  "eventSourceRef (listener jp th t ev cl) = eventSourceRef cl"
  "nextTimer (listener jp th t ev cl) = nextTimer cl"
  "sources (listener jp th t ev cl) = sources cl"
  by (simp_all add: listener_def callHandler_fields split: option.splits)

lemma isOpen_listener: "isOpen j (listener jp th t ev cl) = isOpen j cl"
  by (simp add: isOpen_def listener_fields)

lemma clientInv_listener: "clientInv (listener jp th t ev cl) = clientInv cl"
  by (simp add: clientInv_def isOpen_listener listener_fields)

lemma clearTimeout_all:
  "\<forall>p \<in> set ts. fst p = t \<Longrightarrow> clearTimeout t ts = []"
  by (auto simp: clearTimeout_def filter_empty_conv)

lemma clientInv_initial: "clientInv (effect True (initialClient handlers))"
  by (auto simp: clientInv_def effect_def isOpen_connect connect_fields)
    (auto simp: initialClient_def isOpen_def)

lemma clientInv_onerror:
  assumes inv: "clientInv cl" and o: "isOpen i cl"
  shows "clientInv (onerror i cl)" and "timers (onerror i cl) = [(nextTimer cl, 2000)]"
    and "\<forall>j. \<not> isOpen j (onerror i cl)"
proof -
  have t: "timers cl = []"
    using inv o by (auto simp: clientInv_def)
  show ts: "timers (onerror i cl) = [(nextTimer cl, 2000)]"
    by (simp add: onerror_def t)
  show cl: "\<forall>j. \<not> isOpen j (onerror i cl)"
  proof
    fix j
    show "\<not> isOpen j (onerror i cl)"
    proof
      assume "isOpen j (onerror i cl)"
      then have j: "isOpen j cl" "j \<noteq> i"
        by (simp_all add: isOpen_onerror)
      have "eventSourceRef cl = Some j" "eventSourceRef cl = Some i"
        using inv j(1) o unfolding clientInv_def by blast+
      then show False
        using j(2) by simp
    qed
  qed
  show "clientInv (onerror i cl)"
    unfolding clientInv_def using cl ts inv
    by (auto simp: clientInv_def) (simp_all add: onerror_def)
qed

lemma clientInv_timer:
  assumes inv: "clientInv cl" and p: "t \<in> fst ` set (timers cl)"
  shows "clientInv (connect (cl\<lparr>timers := clearTimeout t (timers cl)\<rparr>))"
    and "timers (connect (cl\<lparr>timers := clearTimeout t (timers cl)\<rparr>)) = []"
proof -
  have r: "reconnectTimeout cl = Some t"
    using inv p by (auto simp: clientInv_def)
  then have "\<forall>p \<in> set (timers cl). fst p = t"
    using inv by (auto simp: clientInv_def)
  then have e: "clearTimeout t (timers cl) = []"
    by (rule clearTimeout_all)
  have c: "\<forall>j. \<not> isOpen j cl"
    using inv p by (auto simp: clientInv_def)
  show "timers (connect (cl\<lparr>timers := clearTimeout t (timers cl)\<rparr>)) = []"
    by (simp add: connect_fields e)
  show "clientInv (connect (cl\<lparr>timers := clearTimeout t (timers cl)\<rparr>))"
    using inv c by (auto simp: clientInv_def connect_fields e isOpen_connect isOpen_timers_update)
qed

lemma clientInv_step:
  "clientInv cl \<Longrightarrow> clientStep jp th cl e = Some cl' \<Longrightarrow> clientInv cl'"
proof (cases e)
  case (Render handlers)
  assume "clientInv cl" "clientStep jp th cl e = Some cl'"
  then show ?thesis using Render by (auto simp: clientInv_def isOpen_handlers_update)
next
  case (Frame i event)
  assume "clientInv cl" "clientStep jp th cl e = Some cl'"
  then show ?thesis using Frame by (auto simp: clientInv_listener split: if_splits)
next
  case (ConnectionError i)
  assume "clientInv cl" "clientStep jp th cl e = Some cl'"
  then show ?thesis using ConnectionError clientInv_onerror(1) [of cl i]
    by (auto split: if_splits)
next
  case (TimerFires t)
  assume "clientInv cl" "clientStep jp th cl e = Some cl'"
  then show ?thesis using TimerFires clientInv_timer(1) [of cl t]
    by (auto split: if_splits)
qed

lemma clientInv_run:
  "clientInv cl \<Longrightarrow> clientRun jp th cl es = Some cl' \<Longrightarrow> clientInv cl'"
  by (induction es arbitrary: cl) (auto split: option.splits dest: clientInv_step)

lemma stopped_cleanup: "clientInv cl \<Longrightarrow> stopped (cleanup cl)"
proof -
  assume inv: "clientInv cl"
  have o: "\<forall>j. \<not> isOpen j (cleanup cl)"
    using inv by (auto simp: isOpen_cleanup clientInv_def)
  have "timers (cleanup cl) = []"
  proof (cases "timers cl = []")
    case True
    then show ?thesis
      by (simp add: cleanup_def clearTimeout_def split: option.splits)
  next
    case False
    then obtain p where p: "p \<in> set (timers cl)"
      by (cases "timers cl") auto
    then have r: "reconnectTimeout cl = Some (fst p)" "fst p \<noteq> 0"
      using inv by (auto simp: clientInv_def)
    then have "\<forall>q \<in> set (timers cl). fst q = fst p"
      using inv by (auto simp: clientInv_def)
    then have "clearTimeout (fst p) (timers cl) = []"
      by (rule clearTimeout_all)
    then show ?thesis
      using r by (simp add: cleanup_def)
  qed
  then show ?thesis
    using o by (simp add: stopped_def)
qed

lemma stopped_step:
  "stopped cl \<Longrightarrow> clientStep jp th cl e = Some cl' \<Longrightarrow> stopped cl' \<and> invoked cl' = invoked cl"
  by (cases e) (auto simp: stopped_def isOpen_handlers_update split: if_splits)

lemma stopped_run:
  "stopped cl \<Longrightarrow> clientRun jp th cl es = Some cl' \<Longrightarrow> invoked cl' = invoked cl"
proof (induction es arbitrary: cl)
  case Nil
  then show ?case by simp
next
  case (Cons e es)
  from Cons.prems(2) obtain cl1 where s: "clientStep jp th cl e = Some cl1"
    and r: "clientRun jp th cl1 es = Some cl'"
    by (auto split: option.splits)
  have "stopped cl1 \<and> invoked cl1 = invoked cl"
    using stopped_step [OF Cons.prems(1) s] .
  then show ?case
    using Cons.IH [OF _ r] by simp
qed

lemma invoked_listener:
  "handlersRef cl t = Some h \<Longrightarrow>
   invoked (listener jp th t ev cl) =
     invoked cl @
       (case jp (data ev) of
          None \<Rightarrow> [(h, Raw (data ev))]
        | Some v \<Rightarrow> (if th h (Parsed v) then [(h, Parsed v), (h, Raw (data ev))] else [(h, Parsed v)]))"
  by (simp add: listener_def callHandler_def handlerThrows_def split: option.splits)

lemma onerror_fields:
  "handlersRef (onerror i cl) = handlersRef cl"
  "reconnectTimeout (onerror i cl) = Some (nextTimer cl)"
  "length (sources (onerror i cl)) = length (sources cl)"
  "invoked (onerror i cl) = invoked cl"
  by (simp_all add: onerror_def length_closeSource)

lemma clientRun_append:
  "clientRun jp th cl (es @ es') =
     (case clientRun jp th cl es of None \<Rightarrow> None | Some cl' \<Rightarrow> clientRun jp th cl' es')"
  by (induction es arbitrary: cl) (auto split: option.splits)

subsection \<open>The listeners of the open sources\<close>

lemma listeners_closeSource:
  "j < length srcs \<Longrightarrow> listeners (closeSource i srcs ! j) = listeners (srcs ! j)"
  by (auto simp: closeSource_def nth_list_update)

lemma listeners_connect_old:
  "j < length (sources cl) \<Longrightarrow> listeners (sources (connect cl) ! j) = listeners (sources cl ! j)"
  by (auto simp: connect_def Let_def nth_append length_closeSource listeners_closeSource
      split: option.splits)

lemma listenersMatch_connect:
  assumes "listenersMatch D cl"
  shows "listenersMatch D (connect cl)"
  unfolding listenersMatch_def
proof (intro conjI allI impI)
  show "dom (handlersRef (connect cl)) = D"
    using assms by (simp add: connect_fields listenersMatch_def)
next
  fix i
  assume o: "isOpen i (connect cl)"
  show "listeners (sources (connect cl) ! i) = D"
  proof (cases "i = length (sources cl)")
    case True
    then show ?thesis
      using assms connect_fields(8) [of cl] by (simp add: listenersMatch_def)
  next
    case False
    then have oi: "isOpen i cl"
      using o by (simp add: isOpen_connect)
    then have "i < length (sources cl)"
      by (simp add: isOpen_def)
    then show ?thesis
      using assms oi by (simp add: listeners_connect_old listenersMatch_def)
  qed
qed

lemma listenersMatch_timers: "listenersMatch D (cl\<lparr>timers := ts\<rparr>) = listenersMatch D cl"
  by (simp add: listenersMatch_def isOpen_timers_update)

lemma listenersMatch_onerror:
  assumes "listenersMatch D cl"
  shows "listenersMatch D (onerror i cl)"
  unfolding listenersMatch_def
proof (intro conjI allI impI)
  show "dom (handlersRef (onerror i cl)) = D"
    using assms by (simp add: onerror_fields listenersMatch_def)
next
  fix j
  assume "isOpen j (onerror i cl)"
  then have oj: "isOpen j cl"
    by (simp add: isOpen_onerror)
  then have "j < length (sources cl)"
    by (simp add: isOpen_def)
  then have "listeners (sources (onerror i cl) ! j) = listeners (sources cl ! j)"
    by (simp add: onerror_def listeners_closeSource)
  then show "listeners (sources (onerror i cl) ! j) = D"
    using assms oj by (simp add: listenersMatch_def)
qed

lemma listenersMatch_listener:
  "listenersMatch D (listener jp th t ev cl) = listenersMatch D cl"
  by (simp add: listenersMatch_def isOpen_listener listener_fields)

lemma listenersMatch_step:
  "listenersMatch D cl \<Longrightarrow> keepsKeys D e \<Longrightarrow> clientStep jp th cl e = Some cl' \<Longrightarrow>
     listenersMatch D cl'"
proof (cases e)
  case (Render handlers)
  assume "listenersMatch D cl" "keepsKeys D e" "clientStep jp th cl e = Some cl'"
  then show ?thesis using Render
    by (auto simp: listenersMatch_def isOpen_handlers_update)
next
  case (Frame i event)
  assume "listenersMatch D cl" "keepsKeys D e" "clientStep jp th cl e = Some cl'"
  then show ?thesis using Frame
    by (auto simp: listenersMatch_listener split: if_splits)
next
  case (ConnectionError i)
  assume "listenersMatch D cl" "keepsKeys D e" "clientStep jp th cl e = Some cl'"
  then show ?thesis using ConnectionError
    by (auto simp: listenersMatch_onerror split: if_splits)
next
  case (TimerFires t)
  assume "listenersMatch D cl" "keepsKeys D e" "clientStep jp th cl e = Some cl'"
  then show ?thesis using TimerFires
    by (auto simp: listenersMatch_connect listenersMatch_timers split: if_splits)
qed

lemma listenersMatch_run:
  "listenersMatch D cl \<Longrightarrow> \<forall>e \<in> set es. keepsKeys D e \<Longrightarrow> clientRun jp th cl es = Some cl' \<Longrightarrow>
     listenersMatch D cl'"
proof (induction es arbitrary: cl)
  case Nil
  then show ?case by simp
next
  case (Cons e es)
  from Cons.prems(3) obtain cl1 where s: "clientStep jp th cl e = Some cl1"
    and r: "clientRun jp th cl1 es = Some cl'"
    by (auto split: option.splits)
  have "listenersMatch D cl1"
    using listenersMatch_step [OF Cons.prems(1) _ s] Cons.prems(2) by simp
  then show ?case
    using Cons.IH [OF _ _ r] Cons.prems(2) by simp
qed

lemma listenersMatch_initial:
  "listenersMatch (dom handlers) (effect True (initialClient handlers))"
proof -
  have "listenersMatch (dom handlers) (initialClient handlers)"
    by (simp add: listenersMatch_def initialClient_def isOpen_def)
  then have "listenersMatch (dom handlers) (connect (initialClient handlers))"
    by (rule listenersMatch_connect)
  then show ?thesis
    by (simp add: effect_def)
qed

section \<open>The merge rule\<close>

text \<open>
  Claim C1. When the history fetch resolves for a channel that has a live state,
  the new message sequence of the channel is the history, followed by the
  messages of the current state whose timestamp is strictly greater than the
  timestamp of the last history message (0 for an empty history), cut to its
  last 50 elements; nothing else of the state changes. In particular, when the
  last history timestamp is 300, a live message of timestamp 250 that is not
  itself in the history is not in the merged sequence.
\<close>

theorem history_merge_rule:
  "current c = Some existing \<longrightarrow>
     mergeHistory c history current =
       current(c \<mapsto> existing\<lparr>messages :=
         (let merged = history @ filter (\<lambda>m. timestamp m > (if history = [] then 0 else timestamp (last history))) (messages existing)
          in drop (length merged - 50) merged)\<rparr>)
     \<and> (history \<noteq> [] \<and> timestamp (last history) = 300 \<and> timestamp m = 250 \<and> m \<notin> set history
          \<longrightarrow> m \<notin> set (messagesOf (mergeHistory c history current) c))"
proof (intro impI conjI)
  assume ex: "current c = Some existing"
  show "mergeHistory c history current =
       current(c \<mapsto> existing\<lparr>messages :=
         (let merged = history @ filter (\<lambda>m. timestamp m > (if history = [] then 0 else timestamp (last history))) (messages existing)
          in drop (length merged - 50) merged)\<rparr>)"
    using ex
    by (simp add: mergeHistory_def mergeMessages_def newSseMessages_def slice_last_def
        MAX_MESSAGES_def lastHistoryTs_last Let_def)
next
  assume ex: "current c = Some existing"
    and h: "history \<noteq> [] \<and> timestamp (last history) = 300 \<and> timestamp m = 250 \<and> m \<notin> set history"
  have cur: "messagesOf current c = messages existing"
    using ex by (simp add: messagesOf_def)
  have "messagesOf (mergeHistory c history current) c = mergeMessages history (messages existing)"
    using ex cur by (simp add: messagesOf_mergeHistory)
  then have "set (messagesOf (mergeHistory c history current) c)
          \<subseteq> set (history @ newSseMessages history (messages existing))"
    unfolding mergeMessages_def by (simp only: set_slice_last)
  moreover have "m \<notin> set (newSseMessages history (messages existing))"
    using h by (simp add: newSseMessages_def lastHistoryTs_last)
  ultimately show "m \<notin> set (messagesOf (mergeHistory c history current) c)"
    using h by auto
qed

theorem history_merge_rule_witness:
  "c2_state ''c2'' = Some c2_existing \<and>
   mergeHistory ''c2'' (map toChatMessage c2_rows) c2_state =
     c2_state(''c2'' \<mapsto> c2_existing\<lparr>messages := map toChatMessage c2_rows\<rparr>) \<and>
   map toChatMessage c2_rows \<noteq> [] \<and>
   timestamp (last (map toChatMessage c2_rows)) = 300 \<and>
   timestamp c2_live = 250 \<and>
   c2_live \<in> set (messages c2_existing) \<and>
   c2_live \<notin> set (map toChatMessage c2_rows) \<and>
   c2_live \<notin> set (messagesOf (mergeHistory ''c2'' (map toChatMessage c2_rows) c2_state) ''c2'')"
proof -
  have ex: "c2_state ''c2'' = Some c2_existing"
    by (simp add: c2_state_def)
  have ts: "map timestamp (map toChatMessage c2_rows) = [100, 200, 300]"
    by (simp add: c2_rows_def toChatMessage_def)
  have ne: "map toChatMessage c2_rows \<noteq> []"
    by (simp add: c2_rows_def)
  have l: "timestamp (last (map toChatMessage c2_rows)) = 300"
    by (simp add: c2_rows_def toChatMessage_def)
  have t: "timestamp c2_live = 250"
    by (simp add: c2_live_def inboundChatMessage_def)
  have n: "c2_live \<notin> set (map toChatMessage c2_rows)"
  proof
    assume "c2_live \<in> set (map toChatMessage c2_rows)"
    then have "timestamp c2_live \<in> timestamp ` set (map toChatMessage c2_rows)"
      by (rule imageI)
    then have "timestamp c2_live \<in> set (map timestamp (map toChatMessage c2_rows))"
      by (simp only: set_map)
    then show False
      unfolding ts t by simp
  qed
  have f: "filter (\<lambda>m. 300 < timestamp m) (messages c2_existing) = []"
    by (simp add: c2_existing_def t)
  have len: "length c2_rows = 3"
    by (simp add: c2_rows_def)
  note rule = history_merge_rule [of c2_state "''c2''" c2_existing "map toChatMessage c2_rows" c2_live]
  have a: "mergeHistory ''c2'' (map toChatMessage c2_rows) c2_state =
     c2_state(''c2'' \<mapsto> c2_existing\<lparr>messages := map toChatMessage c2_rows\<rparr>)"
    using rule ex ne l f len by simp
  have b: "c2_live \<notin> set (messagesOf (mergeHistory ''c2'' (map toChatMessage c2_rows) c2_state) ''c2'')"
    using rule ex ne l t n by blast
  have m: "c2_live \<in> set (messages c2_existing)"
    by (simp add: c2_existing_def)
  show ?thesis
    using ex a ne l t m n b by blast
qed

section \<open>One fetch per channel\<close>

text \<open>
  Claim C8. In every state the dashboard reaches from its initial state, the
  fetch of a channel was sent at most once. A round of the history effect sends
  the fetch of a channel whose flag is not set and sends nothing for a channel
  whose flag is set, so after a change of the channel list that has the channel
  the fetch was sent exactly once, however often the list had it before.
\<close>

theorem one_fetch_per_channel:
  "run initial es = Some d \<longrightarrow>
     count_list (dispatched d) c \<le> 1 \<and>
     (c \<in> set channels \<longrightarrow> count_list (dispatched (historyEffect channels d)) c = 1) \<and>
     (\<not> loadedOf (liveStates d) c \<longrightarrow> dispatched (loadChannel d c) = dispatched d @ [c]) \<and>
     (loadedOf (liveStates d) c \<longrightarrow> dispatched (loadChannel d c) = dispatched d)"
proof
  assume r: "run initial es = Some d"
  have inv: "dashboardInv d"
    using dashboardInv_run [OF dashboardInv_initial r] .
  have inv': "dashboardInv (historyEffect channels d)"
    using inv by (rule dashboardInv_historyEffect)
  have a: "count_list (dispatched d) c \<le> 1"
    using inv by (simp add: dashboardInv_def count_list_distinct)
  have b: "c \<in> set channels \<longrightarrow> count_list (dispatched (historyEffect channels d)) c = 1"
  proof
    assume "c \<in> set channels"
    then have "loadedOf (liveStates (historyEffect channels d)) c"
      by (simp add: loadedOf_historyEffect)
    then have "c \<in> set (dispatched (historyEffect channels d))"
      using inv' by (simp add: dashboardInv_def)
    then show "count_list (dispatched (historyEffect channels d)) c = 1"
      using inv' by (simp add: dashboardInv_def count_list_distinct)
  qed
  show "count_list (dispatched d) c \<le> 1 \<and>
     (c \<in> set channels \<longrightarrow> count_list (dispatched (historyEffect channels d)) c = 1) \<and>
     (\<not> loadedOf (liveStates d) c \<longrightarrow> dispatched (loadChannel d c) = dispatched d @ [c]) \<and>
     (loadedOf (liveStates d) c \<longrightarrow> dispatched (loadChannel d c) = dispatched d)"
    using a b by (simp add: loadChannel_loaded loadChannel_fresh)
qed

theorem one_fetch_per_channel_witness:
  "\<exists>d. run initial [ChannelsChanged [''c1''], InboundMessage c1_in 5 ''0.5'' 5, ChannelsChanged [''c1'', ''c2'']] = Some d \<and>
     count_list (dispatched d) ''c1'' \<le> 1 \<and>
     ''c1'' \<in> set [''c1'', ''c1''] \<and>
     count_list (dispatched (historyEffect [''c1'', ''c1''] d)) ''c1'' = 1 \<and>
     \<not> loadedOf (liveStates d) ''c3'' \<and> dispatched (loadChannel d ''c3'') = dispatched d @ [''c3''] \<and>
     loadedOf (liveStates d) ''c1'' \<and> dispatched (loadChannel d ''c1'') = dispatched d"
proof -
  define es where "es = [ChannelsChanged [''c1''], InboundMessage c1_in 5 ''0.5'' 5, ChannelsChanged [''c1'', ''c2'']]"
  have "run initial es \<noteq> None"
    by (simp add: es_def eval_simps c1_in_def)
  then obtain d where r: "run initial es = Some d" by blast
  have l1: "loadedOf (liveStates d) ''c1''" and l3: "\<not> loadedOf (liveStates d) ''c3''"
    using r by (auto simp: es_def eval_simps c1_in_def)
  show ?thesis
    using r l1 l3 one_fetch_per_channel [of es d "''c1''" "[''c1'', ''c1'']"]
      one_fetch_per_channel [of es d "''c3''" "[]"]
    unfolding es_def by auto
qed

section \<open>The typing indicator\<close>

text \<open>
  Claim C3. A \<^verbatim>\<open>typing_state\<close> event sets the indicator of its channel to the
  value it carries, an \<^verbatim>\<open>outbound_message\<close> event sets the indicator of its
  channel to false, and an \<^verbatim>\<open>inbound_message\<close> event leaves every indicator
  as it reads. So after a \<^verbatim>\<open>typing_state\<close> event with the value true the
  indicator reads true; it still does after any steps that are neither a
  \<^verbatim>\<open>typing_state\<close> nor an \<^verbatim>\<open>outbound_message\<close> event of that channel;
  and after an \<^verbatim>\<open>outbound_message\<close> event of the channel that follows any
  steps at all it reads false.
\<close>

theorem typing_indicator:
  "typingOf (handleTypingState tv s) (channel_id_ty tv) = is_typing tv \<and>
   \<not> typingOf (handleOutboundMessage ov i r t s) (channel_id_out ov) \<and>
   typingOf (handleInboundMessage ev i r t s) c = typingOf s c \<and>
   (step d (TypingState tv) = Some d1 \<and> is_typing tv \<and> run d1 es = Some d2 \<and>
    step d2 (OutboundMessage ov i r t) = Some d3 \<and> channel_id_out ov = channel_id_ty tv
      \<longrightarrow> typingOf (liveStates d1) (channel_id_ty tv) \<and> \<not> typingOf (liveStates d3) (channel_id_ty tv)) \<and>
   (run d1 es = Some d2 \<and> (\<forall>e \<in> set es. \<not> changesTyping c e)
      \<longrightarrow> typingOf (liveStates d2) c = typingOf (liveStates d1) c)"
proof (intro conjI impI)
  show "typingOf (handleTypingState tv s) (channel_id_ty tv) = is_typing tv"
    by (simp add: readers_simps)
  show "\<not> typingOf (handleOutboundMessage ov i r t s) (channel_id_out ov)"
    by (simp add: readers_simps)
  show "typingOf (handleInboundMessage ev i r t s) c = typingOf s c"
    by (simp add: readers_simps)
next
  assume a: "step d (TypingState tv) = Some d1 \<and> is_typing tv \<and> run d1 es = Some d2 \<and>
    step d2 (OutboundMessage ov i r t) = Some d3 \<and> channel_id_out ov = channel_id_ty tv"
  then show "typingOf (liveStates d1) (channel_id_ty tv)"
    by (auto simp: readers_simps)
  from a show "\<not> typingOf (liveStates d3) (channel_id_ty tv)"
    by (auto simp: readers_simps)
next
  assume "run d1 es = Some d2 \<and> (\<forall>e \<in> set es. \<not> changesTyping c e)"
  then show "typingOf (liveStates d2) c = typingOf (liveStates d1) c"
    using typingOf_run by blast
qed

theorem typing_indicator_witness:
  "\<exists>d1 d2 d3.
     typingOf (handleTypingState c2_typing c2_state) ''c2'' \<and>
     \<not> typingOf (handleOutboundMessage c2_out 260 ''0.7'' 260 c2_state) ''c2'' \<and>
     typingOf (handleInboundMessage c2_in 260 ''0.7'' 260 c2_state) ''c2'' = typingOf c2_state ''c2'' \<and>
     step c2_loading (TypingState c2_typing) = Some d1 \<and> is_typing c2_typing \<and>
     run d1 [InboundMessage c1_in 255 ''0.1'' 255, HistoryResolved ''c2'' c2_rows, ChannelsChanged [''c1'']] = Some d2 \<and>
     list_all (\<lambda>e. \<not> changesTyping ''c2'' e)
       [InboundMessage c1_in 255 ''0.1'' 255, HistoryResolved ''c2'' c2_rows, ChannelsChanged [''c1'']] \<and>
     step d2 (OutboundMessage c2_out 260 ''0.7'' 260) = Some d3 \<and>
     channel_id_out c2_out = channel_id_ty c2_typing \<and>
     typingOf (liveStates d1) ''c2'' \<and>
     typingOf (liveStates d2) ''c2'' \<and>
     \<not> typingOf (liveStates d3) ''c2''"
proof -
  define es where "es = [InboundMessage c1_in 255 ''0.1'' 255, HistoryResolved ''c2'' c2_rows, ChannelsChanged [''c1'']]"
  obtain d1 where s1: "step c2_loading (TypingState c2_typing) = Some d1"
    by simp
  have p: "''c2'' \<in> set (pending d1)"
    using s1 by (auto simp: c2_loading_def)
  have "run d1 es \<noteq> None"
    using p by (simp add: es_def c1_in_def)
  then obtain d2 where r: "run d1 es = Some d2"
    by blast
  obtain d3 where s3: "step d2 (OutboundMessage c2_out 260 ''0.7'' 260) = Some d3"
    by simp
  have ty: "is_typing c2_typing" and ch: "channel_id_out c2_out = channel_id_ty c2_typing"
    and c: "channel_id_ty c2_typing = ''c2''"
    by (simp_all add: c2_typing_def c2_out_def)
  have un: "\<forall>e \<in> set es. \<not> changesTyping ''c2'' e"
    by (simp add: es_def)
  note th = typing_indicator [where tv = c2_typing and s = c2_state and ov = c2_out and i = 260
    and r = "''0.7''" and t = 260 and ev = c2_in and c = "''c2''" and d = c2_loading and ?d1.0 = d1
    and es = es and ?d2.0 = d2 and ?d3.0 = d3]
  have a: "typingOf (handleTypingState c2_typing c2_state) ''c2''"
    using th ty c by simp
  have co: "channel_id_out c2_out = ''c2''"
    by (simp add: c2_out_def)
  have b: "\<not> typingOf (handleOutboundMessage c2_out 260 ''0.7'' 260 c2_state) ''c2''"
    using th co by simp
  have i: "typingOf (handleInboundMessage c2_in 260 ''0.7'' 260 c2_state) ''c2'' = typingOf c2_state ''c2''"
    using th by blast
  have t1: "typingOf (liveStates d1) ''c2''" and t3: "\<not> typingOf (liveStates d3) ''c2''"
    using th s1 ty r s3 ch c by auto
  have t2: "typingOf (liveStates d2) ''c2''"
    using th r un t1 by blast
  show ?thesis
    using a b i s1 ty r un s3 ch t1 t2 t3 unfolding es_def by (auto simp: list_all_iff)
qed

section \<open>The frame of the handlers\<close>

text \<open>
  Claim C10. A handler changes the live state of the channel of its event only:
  the entry of every other channel is the same after an \<^verbatim>\<open>inbound_message\<close>,
  an \<^verbatim>\<open>outbound_message\<close> or a \<^verbatim>\<open>typing_state\<close> event. A
  \<^verbatim>\<open>typing_state\<close> event leaves the message sequence and the load flag of
  every channel as they read, and an \<^verbatim>\<open>inbound_message\<close> event leaves the
  typing indicator and the load flag of every channel as they read.
\<close>

theorem handlers_touch_one_channel:
  "(c' \<noteq> channel_id_in ev \<longrightarrow> handleInboundMessage ev i r t s c' = s c') \<and>
   (c' \<noteq> channel_id_out ov \<longrightarrow> handleOutboundMessage ov i r t s c' = s c') \<and>
   (c' \<noteq> channel_id_ty tv \<longrightarrow> handleTypingState tv s c' = s c') \<and>
   messagesOf (handleTypingState tv s) c = messagesOf s c \<and>
   loadedOf (handleTypingState tv s) c = loadedOf s c \<and>
   typingOf (handleInboundMessage ev i r t s) c = typingOf s c \<and>
   loadedOf (handleInboundMessage ev i r t s) c = loadedOf s c"
  by (simp add: readers_simps pushMessage_other setTyping_other)

theorem handlers_touch_one_channel_witness:
  "''c1'' \<noteq> channel_id_in c2_in \<and>
   handleInboundMessage c2_in 250 ''0.5'' 250 c2_state ''c1'' = c2_state ''c1'' \<and>
   ''c1'' \<noteq> channel_id_out c2_out \<and>
   handleOutboundMessage c2_out 250 ''0.5'' 250 c2_state ''c1'' = c2_state ''c1'' \<and>
   ''c1'' \<noteq> channel_id_ty c2_typing \<and>
   handleTypingState c2_typing c2_state ''c1'' = c2_state ''c1'' \<and>
   messagesOf (handleTypingState c2_typing c2_state) ''c2'' = [c2_live] \<and>
   loadedOf (handleTypingState c2_typing c2_state) ''c2'' \<and>
   \<not> typingOf (handleInboundMessage c2_in 250 ''0.5'' 250 c2_state) ''c2'' \<and>
   loadedOf (handleInboundMessage c2_in 250 ''0.5'' 250 c2_state) ''c2''"
proof -
  have n: "''c1'' \<noteq> channel_id_in c2_in" "''c1'' \<noteq> channel_id_out c2_out"
    "''c1'' \<noteq> channel_id_ty c2_typing"
    by (simp_all add: c2_in_def c2_out_def c2_typing_def)
  have r: "messagesOf c2_state ''c2'' = [c2_live]" "loadedOf c2_state ''c2''"
    "\<not> typingOf c2_state ''c2''"
    by (simp_all add: c2_state_def c2_existing_def messagesOf_def loadedOf_def typingOf_def)
  show ?thesis
    using n r
      handlers_touch_one_channel [where c' = "''c1''" and ev = c2_in and ov = c2_out and tv = c2_typing
        and i = 250 and r = "''0.5''" and t = 250 and s = c2_state and c = "''c2''"]
    by simp
qed

section \<open>The load flag never goes back\<close>

text \<open>
  Claim C5. The load marker of a channel is the flag \<^verbatim>\<open>historyLoaded\<close>, which
  is set when the fetch is sent. Once the flag of a channel reads true, it reads
  true after every operation of the store (an append for an inbound or an
  outbound message, the clearing of the indicator, a typing update, a merge of a
  history, a round of the history effect) and after every run of the dashboard.
\<close>

theorem load_marker_monotone:
  "(loadedOf s c \<longrightarrow>
      loadedOf (handleInboundMessage ev i r t s) c \<and>
      loadedOf (handleOutboundMessage ov i r t s) c \<and>
      loadedOf (handleTypingState tv s) c \<and>
      loadedOf (mergeHistory c' history s) c) \<and>
   (loadedOf (liveStates d) c \<longrightarrow> loadedOf (liveStates (historyEffect channels d)) c) \<and>
   (loadedOf (liveStates d) c \<and> run d es = Some d' \<longrightarrow> loadedOf (liveStates d') c)"
  using loadedOf_run [of d es d' c]
  by (simp add: readers_simps loadedOf_historyEffect)

theorem load_marker_monotone_witness:
  "\<exists>d'. loadedOf c2_state ''c2'' \<and>
     loadedOf (handleInboundMessage c2_in 250 ''0.5'' 250 c2_state) ''c2'' \<and>
     loadedOf (handleOutboundMessage c2_out 250 ''0.5'' 250 c2_state) ''c2'' \<and>
     loadedOf (handleTypingState c2_typing c2_state) ''c2'' \<and>
     loadedOf (mergeHistory ''c2'' (map toChatMessage c2_rows) c2_state) ''c2'' \<and>
     loadedOf (liveStates c2_loading) ''c2'' \<and>
     loadedOf (liveStates (historyEffect [''c1'', ''c2''] c2_loading)) ''c2'' \<and>
     run c2_loading [TypingState c2_typing, HistoryResolved ''c2'' c2_rows,
                     OutboundMessage c2_out 310 ''0.9'' 310, ChannelsChanged [''c2'']] = Some d' \<and>
     loadedOf (liveStates d') ''c2''"
proof -
  define es where "es = [TypingState c2_typing, HistoryResolved ''c2'' c2_rows,
                     OutboundMessage c2_out 310 ''0.9'' 310, ChannelsChanged [''c2'']]"
  have l: "loadedOf c2_state ''c2''"
    by (simp add: c2_state_def c2_existing_def loadedOf_def)
  then have l': "loadedOf (liveStates c2_loading) ''c2''"
    by (simp add: c2_loading_def)
  have "run c2_loading es \<noteq> None"
    by (simp add: es_def c2_loading_def)
  then obtain d' where r: "run c2_loading es = Some d'"
    by blast
  show ?thesis
    using l l' r
      load_marker_monotone [where s = c2_state and c = "''c2''" and ev = c2_in and ov = c2_out
        and tv = c2_typing and i = 250 and r = "''0.5''" and t = 250 and c' = "''c2''"
        and history = "map toChatMessage c2_rows" and d = c2_loading
        and channels = "[''c1'', ''c2'']" and es = es and d' = d']
    unfolding es_def by blast
qed

section \<open>A failed fetch\<close>

text \<open>
  Claim C4. When the fetch of a channel fails while it is pending, the live
  states are what they were, so the message sequence of the channel is as it
  was, and it is empty when no live message of the channel came before; the load
  flag of the channel reads true; in every later state the fetch of the channel
  was sent exactly once, so it is never sent again; and a live message of the
  channel is still appended to its sequence, cut to the last 50.
\<close>

theorem failed_fetch_leaves_channel_live:
  "run initial es = Some d \<and> c \<in> set (pending d) \<longrightarrow>
     (\<exists>d'. step d (HistoryRejected c) = Some d' \<and>
        liveStates d' = liveStates d \<and>
        loadedOf (liveStates d') c \<and>
        ((\<forall>e \<in> set es. \<not> liveMessageFor c e) \<longrightarrow> messagesOf (liveStates d') c = []) \<and>
        (\<forall>es' d''. run d' es' = Some d'' \<longrightarrow>
           count_list (dispatched d'') c = 1 \<and> loadedOf (liveStates d'') c) \<and>
        (\<forall>s ev i r t. channel_id_in ev = c \<longrightarrow>
           messagesOf (handleInboundMessage ev i r t s) c =
             drop (length (messagesOf s c @ [inboundChatMessage ev i r t]) - 50)
               (messagesOf s c @ [inboundChatMessage ev i r t])) \<and>
        (\<forall>s ov i r t. channel_id_out ov = c \<longrightarrow>
           messagesOf (handleOutboundMessage ov i r t s) c =
             drop (length (messagesOf s c @ [outboundChatMessage ov i r t]) - 50)
               (messagesOf s c @ [outboundChatMessage ov i r t])))"
proof
  assume a: "run initial es = Some d \<and> c \<in> set (pending d)"
  then have r: "run initial es = Some d" and p: "c \<in> set (pending d)" by simp_all
  define d' where "d' = d\<lparr>pending := remove1 c (pending d)\<rparr>"
  have s: "step d (HistoryRejected c) = Some d'"
    using p by (simp add: d'_def)
  have inv: "dashboardInv d"
    using dashboardInv_run [OF dashboardInv_initial r] .
  have inv': "dashboardInv d'"
    using inv s by (rule dashboardInv_step)
  have ls: "liveStates d' = liveStates d"
    by (simp add: d'_def)
  have l: "loadedOf (liveStates d') c"
    using inv p by (auto simp: ls dashboardInv_def)
  have e: "(\<forall>e \<in> set es. \<not> liveMessageFor c e) \<longrightarrow> messagesOf (liveStates d') c = []"
  proof
    assume q: "\<forall>e \<in> set es. \<not> liveMessageFor c e"
    have "c \<in> set (pending d) \<or> c \<notin> set (dispatched d) \<longrightarrow> messagesOf (liveStates d) c = []"
      using quiet_run [OF dashboardInv_initial r q] by (simp add: initial_def messagesOf_def)
    then show "messagesOf (liveStates d') c = []"
      using p by (simp add: ls)
  qed
  have n: "\<forall>es' d''. run d' es' = Some d'' \<longrightarrow>
           count_list (dispatched d'') c = 1 \<and> loadedOf (liveStates d'') c"
  proof (intro allI impI)
    fix es' d''
    assume r': "run d' es' = Some d''"
    have inv'': "dashboardInv d''"
      using dashboardInv_run [OF inv' r'] .
    have l'': "loadedOf (liveStates d'') c"
      using loadedOf_run [OF r' l] .
    then have "c \<in> set (dispatched d'')"
      using inv'' by (simp add: dashboardInv_def)
    then have "count_list (dispatched d'') c = 1"
      using inv'' by (simp add: dashboardInv_def count_list_distinct)
    then show "count_list (dispatched d'') c = 1 \<and> loadedOf (liveStates d'') c"
      using l'' by simp
  qed
  have ap: "\<forall>s ev i r t. channel_id_in ev = c \<longrightarrow>
           messagesOf (handleInboundMessage ev i r t s) c =
             drop (length (messagesOf s c @ [inboundChatMessage ev i r t]) - 50)
               (messagesOf s c @ [inboundChatMessage ev i r t])"
    by (simp add: readers_simps slice_last_def MAX_MESSAGES_def)
  have ao: "\<forall>s ov i r t. channel_id_out ov = c \<longrightarrow>
           messagesOf (handleOutboundMessage ov i r t s) c =
             drop (length (messagesOf s c @ [outboundChatMessage ov i r t]) - 50)
               (messagesOf s c @ [outboundChatMessage ov i r t])"
    by (simp add: readers_simps slice_last_def MAX_MESSAGES_def)
  show "\<exists>d'. step d (HistoryRejected c) = Some d' \<and>
        liveStates d' = liveStates d \<and>
        loadedOf (liveStates d') c \<and>
        ((\<forall>e \<in> set es. \<not> liveMessageFor c e) \<longrightarrow> messagesOf (liveStates d') c = []) \<and>
        (\<forall>es' d''. run d' es' = Some d'' \<longrightarrow>
           count_list (dispatched d'') c = 1 \<and> loadedOf (liveStates d'') c) \<and>
        (\<forall>s ev i r t. channel_id_in ev = c \<longrightarrow>
           messagesOf (handleInboundMessage ev i r t s) c =
             drop (length (messagesOf s c @ [inboundChatMessage ev i r t]) - 50)
               (messagesOf s c @ [inboundChatMessage ev i r t])) \<and>
        (\<forall>s ov i r t. channel_id_out ov = c \<longrightarrow>
           messagesOf (handleOutboundMessage ov i r t s) c =
             drop (length (messagesOf s c @ [outboundChatMessage ov i r t]) - 50)
               (messagesOf s c @ [outboundChatMessage ov i r t]))"
    using s ls l e n ap ao by blast
qed

theorem failed_fetch_leaves_channel_live_witness:
  "\<exists>d d' d''.
     run initial [ChannelsChanged [''c1'']] = Some d \<and> ''c1'' \<in> set (pending d) \<and>
     list_all (\<lambda>e. \<not> liveMessageFor ''c1'' e) [ChannelsChanged [''c1'']] \<and>
     step d (HistoryRejected ''c1'') = Some d' \<and>
     liveStates d' = liveStates d \<and>
     messagesOf (liveStates d') ''c1'' = [] \<and>
     loadedOf (liveStates d') ''c1'' \<and>
     run d' [InboundMessage c1_in 5 ''0.5'' 5, ChannelsChanged [''c1'']] = Some d'' \<and>
     count_list (dispatched d'') ''c1'' = 1 \<and>
     channel_id_in c1_in = ''c1'' \<and>
     messagesOf (liveStates d'') ''c1'' = [inboundChatMessage c1_in 5 ''0.5'' 5] \<and>
     channel_id_out c1_out = ''c1'' \<and>
     messagesOf (handleOutboundMessage c1_out 7 ''0.25'' 7 (liveStates d'')) ''c1'' =
       [inboundChatMessage c1_in 5 ''0.5'' 5, outboundChatMessage c1_out 7 ''0.25'' 7]"
proof -
  define es where "es = [ChannelsChanged [''c1'']]"
  define es' where "es' = [InboundMessage c1_in 5 ''0.5'' 5, ChannelsChanged [''c1'']]"
  obtain d where r: "run initial es = Some d"
    by (simp add: es_def)
  have p: "''c1'' \<in> set (pending d)"
    using r by (auto simp: es_def eval_simps)
  have q: "\<forall>e \<in> set es. \<not> liveMessageFor ''c1'' e"
    by (simp add: es_def)
  have ch: "channel_id_in c1_in = ''c1''"
    by (simp add: c1_in_def)
  from failed_fetch_leaves_channel_live [of es d "''c1''"] r p
  obtain d' where s: "step d (HistoryRejected ''c1'') = Some d'"
    and ls: "liveStates d' = liveStates d"
    and l: "loadedOf (liveStates d') ''c1''"
    and e: "(\<forall>e \<in> set es. \<not> liveMessageFor ''c1'' e) \<longrightarrow> messagesOf (liveStates d') ''c1'' = []"
    and n: "\<forall>es' d''. run d' es' = Some d'' \<longrightarrow>
           count_list (dispatched d'') ''c1'' = 1 \<and> loadedOf (liveStates d'') ''c1''"
    and ap: "\<forall>s ev i r t. channel_id_in ev = ''c1'' \<longrightarrow>
           messagesOf (handleInboundMessage ev i r t s) ''c1'' =
             drop (length (messagesOf s ''c1'' @ [inboundChatMessage ev i r t]) - 50)
               (messagesOf s ''c1'' @ [inboundChatMessage ev i r t])"
    and ao: "\<forall>s ov i r t. channel_id_out ov = ''c1'' \<longrightarrow>
           messagesOf (handleOutboundMessage ov i r t s) ''c1'' =
             drop (length (messagesOf s ''c1'' @ [outboundChatMessage ov i r t]) - 50)
               (messagesOf s ''c1'' @ [outboundChatMessage ov i r t])"
    by blast
  have co: "channel_id_out c1_out = ''c1''"
    by (simp add: c1_out_def)
  have m: "messagesOf (liveStates d') ''c1'' = []"
    using e q by blast
  define d'' where "d'' = historyEffect [''c1''] (d'\<lparr>liveStates := handleInboundMessage c1_in 5 ''0.5'' 5 (liveStates d')\<rparr>)"
  have r': "run d' es' = Some d''"
    by (simp add: es'_def d''_def)
  have k: "count_list (dispatched d'') ''c1'' = 1"
    using n r' by blast
  have "messagesOf (liveStates d'') ''c1'' = messagesOf (handleInboundMessage c1_in 5 ''0.5'' 5 (liveStates d')) ''c1''"
    by (simp add: d''_def messagesOf_historyEffect)
  also have "\<dots> = [inboundChatMessage c1_in 5 ''0.5'' 5]"
    using ap ch m by simp
  finally have m'': "messagesOf (liveStates d'') ''c1'' = [inboundChatMessage c1_in 5 ''0.5'' 5]" .
  have o'': "messagesOf (handleOutboundMessage c1_out 7 ''0.25'' 7 (liveStates d'')) ''c1'' =
       [inboundChatMessage c1_in 5 ''0.5'' 5, outboundChatMessage c1_out 7 ''0.25'' 7]"
    using ao co m'' by simp
  show ?thesis
    using r p q s ls m l r' k ch m'' co o'' unfolding es_def es'_def by (auto simp: list_all_iff)
qed

section \<open>Length, order and identity of the sequences\<close>

text \<open>
  Claim C2, as the code has it. In every state the dashboard reaches, the
  message sequence of every channel has at most 50 elements. The store neither
  sorts nor removes duplicates. An append keeps the sequence sorted by timestamp
  when no timestamp in it is above the new one, and keeps the ids distinct when
  the new id is not in it. A merge gives a sorted sequence when the history and
  the live messages are each sorted, and distinct ids when the history and the
  live messages each have distinct ids and no id of the history is the id of a
  live message that the merge keeps. A typing update leaves every sequence as it
  is.
\<close>

theorem sequence_bound_and_order:
  "(run initial es = Some d \<longrightarrow> length (messagesOf (liveStates d) c) \<le> 50) \<and>
   (sortedByTimestamp (messagesOf s c) \<and> (\<forall>m \<in> set (messagesOf s c). timestamp m \<le> timestamp msg)
      \<longrightarrow> sortedByTimestamp (messagesOf (pushMessage c msg s) c)) \<and>
   (distinctIds (messagesOf s c) \<and> id_msg msg \<notin> id_msg ` set (messagesOf s c)
      \<longrightarrow> distinctIds (messagesOf (pushMessage c msg s) c)) \<and>
   (sortedByTimestamp history \<and> sortedByTimestamp (messagesOf s c)
      \<longrightarrow> sortedByTimestamp (messagesOf (mergeHistory c history s) c)) \<and>
   (distinctIds history \<and> distinctIds (messagesOf s c) \<and>
    id_msg ` set history \<inter> id_msg ` set (newSseMessages history (messagesOf s c)) = {}
      \<longrightarrow> distinctIds (messagesOf (mergeHistory c history s) c)) \<and>
   messagesOf (setTyping c' b s) c = messagesOf s c"
proof (intro conjI impI)
  assume "run initial es = Some d"
  then have "length (messagesOf (liveStates d) c) \<le> MAX_MESSAGES"
    by (rule length_run) (simp add: initial_def messagesOf_def)
  then show "length (messagesOf (liveStates d) c) \<le> 50"
    by (simp add: MAX_MESSAGES_def)
next
  assume "sortedByTimestamp (messagesOf s c) \<and> (\<forall>m \<in> set (messagesOf s c). timestamp m \<le> timestamp msg)"
  then have "sortedByTimestamp (messagesOf s c @ [msg])"
    by (simp add: sortedByTimestamp_def sorted_append)
  then show "sortedByTimestamp (messagesOf (pushMessage c msg s) c)"
    by (simp add: messagesOf_pushMessage sortedByTimestamp_slice_last)
next
  assume "distinctIds (messagesOf s c) \<and> id_msg msg \<notin> id_msg ` set (messagesOf s c)"
  then have "distinctIds (messagesOf s c @ [msg])"
    by (simp add: distinctIds_def)
  then show "distinctIds (messagesOf (pushMessage c msg s) c)"
    by (simp add: messagesOf_pushMessage distinctIds_slice_last)
next
  assume "sortedByTimestamp history \<and> sortedByTimestamp (messagesOf s c)"
  then show "sortedByTimestamp (messagesOf (mergeHistory c history s) c)"
    by (simp add: messagesOf_mergeHistory sortedByTimestamp_mergeMessages)
next
  assume "distinctIds history \<and> distinctIds (messagesOf s c) \<and>
    id_msg ` set history \<inter> id_msg ` set (newSseMessages history (messagesOf s c)) = {}"
  then show "distinctIds (messagesOf (mergeHistory c history s) c)"
    by (simp add: messagesOf_mergeHistory distinctIds_mergeMessages)
next
  show "messagesOf (setTyping c' b s) c = messagesOf s c"
    by (simp add: messagesOf_setTyping)
qed

theorem sequence_bound_and_order_witness:
  "\<exists>d. run initial c2_late_run = Some d \<and>
     length (messagesOf (liveStates d) ''c2'') \<le> 50 \<and>
     sortedByTimestamp (messagesOf c2_state ''c2'') \<and>
     list_all (\<lambda>m. timestamp m \<le> timestamp (inboundChatMessage c2_in 310 ''0.9'' 310)) (messagesOf c2_state ''c2'') \<and>
     sortedByTimestamp (messagesOf (pushMessage ''c2'' (inboundChatMessage c2_in 310 ''0.9'' 310) c2_state) ''c2'') \<and>
     distinctIds (messagesOf c2_state ''c2'') \<and>
     id_msg (inboundChatMessage c2_in 310 ''0.9'' 310) \<notin> id_msg ` set (messagesOf c2_state ''c2'') \<and>
     distinctIds (messagesOf (pushMessage ''c2'' (inboundChatMessage c2_in 310 ''0.9'' 310) c2_state) ''c2'') \<and>
     sortedByTimestamp (map toChatMessage c2_rows) \<and>
     sortedByTimestamp (messagesOf (mergeHistory ''c2'' (map toChatMessage c2_rows) c2_state) ''c2'') \<and>
     distinctIds (map toChatMessage c2_rows) \<and>
     id_msg ` set (map toChatMessage c2_rows) \<inter>
       id_msg ` set (newSseMessages (map toChatMessage c2_rows) (messagesOf c2_state ''c2'')) = {} \<and>
     distinctIds (messagesOf (mergeHistory ''c2'' (map toChatMessage c2_rows) c2_state) ''c2'')"
proof -
  define msg where "msg = inboundChatMessage c2_in 310 ''0.9'' 310"
  define history where "history = map toChatMessage c2_rows"
  have n: "showNumber 250 = ''250''" "showNumber 310 = ''310''"
    by code_simp+
  have "run initial c2_late_run \<noteq> None"
    by (simp add: c2_late_run_def eval_simps)
  then obtain d where r: "run initial c2_late_run = Some d"
    by blast
  have m: "messagesOf c2_state ''c2'' = [c2_live]"
    by (simp add: c2_state_def c2_existing_def messagesOf_def)
  have s1: "sortedByTimestamp (messagesOf c2_state ''c2'')"
    and d1: "distinctIds (messagesOf c2_state ''c2'')"
    by (simp_all add: m sortedByTimestamp_def distinctIds_def)
  have le: "\<forall>m \<in> set (messagesOf c2_state ''c2''). timestamp m \<le> timestamp msg"
    by (simp add: m msg_def c2_live_def inboundChatMessage_def)
  have fresh: "id_msg msg \<notin> id_msg ` set (messagesOf c2_state ''c2'')"
    by (simp add: m msg_def c2_live_def inboundChatMessage_def n)
  have s2: "sortedByTimestamp history" and d2: "distinctIds history"
    by (simp_all add: history_def sortedByTimestamp_def distinctIds_def c2_rows_def toChatMessage_def)
  have "newSseMessages history (messagesOf c2_state ''c2'') = []"
    by (simp add: m history_def newSseMessages_def lastHistoryTs_def c2_rows_def toChatMessage_def
        c2_live_def inboundChatMessage_def)
  then have dj: "id_msg ` set history \<inter> id_msg ` set (newSseMessages history (messagesOf c2_state ''c2'')) = {}"
    by simp
  note th = sequence_bound_and_order [where es = c2_late_run and d = d and c = "''c2''"
      and s = c2_state and msg = msg and history = history]
  show ?thesis
    using th r s1 d1 le fresh s2 d2 dj
    unfolding msg_def history_def by (auto simp: list_all_iff)
qed

text \<open>
  The claim as it is written fails. The history of \<open>c2\<close> with the timestamps
  100, 200 and 300 is merged; then two inbound messages arrive while the clock
  of the browser reads 250 and the random generator gives the same number twice.
  Both are appended: the sequence is not sorted and has one id twice.
\<close>

theorem sequence_order_counterexample:
  "run initial c2_late_run \<noteq> None \<and>
   map timestamp (messagesOf (liveStates (the (run initial c2_late_run))) ''c2'') = [100, 200, 300, 250, 250] \<and>
   map id_msg (messagesOf (liveStates (the (run initial c2_late_run))) ''c2'') =
     [''m1'', ''m2'', ''m3'', ''in-250-0.5'', ''in-250-0.5''] \<and>
   \<not> sortedByTimestamp (messagesOf (liveStates (the (run initial c2_late_run))) ''c2'') \<and>
   \<not> distinctIds (messagesOf (liveStates (the (run initial c2_late_run))) ''c2'')"
proof -
  have n: "showNumber 250 = ''250''"
    by code_simp
  have r: "run initial c2_late_run \<noteq> None"
    by (simp add: c2_late_run_def eval_simps)
  have t: "map timestamp (messagesOf (liveStates (the (run initial c2_late_run))) ''c2'') = [100, 200, 300, 250, 250]"
    by (simp add: c2_late_run_def eval_simps scenario_defs)
  have i: "map id_msg (messagesOf (liveStates (the (run initial c2_late_run))) ''c2'') =
     [''m1'', ''m2'', ''m3'', ''in-250-0.5'', ''in-250-0.5'']"
    by (simp add: c2_late_run_def eval_simps scenario_defs n)
  show ?thesis
    using r t i by (simp add: sortedByTimestamp_def distinctIds_def)
qed

section \<open>Merging twice\<close>

text \<open>
  Claim C7. The loader returns the history in ascending order of timestamps.
  For such a history, and for any history in which no message is newer than the
  last one, the merge of the history into a state that the same merge has
  produced changes nothing: merging twice gives what merging once gives. And
  the merged sequence of a channel is determined by the history and the live
  messages of the channel alone, so two merges of the same history with the
  same live messages give the same sequence.
\<close>

theorem merge_idempotent_for_ordered_history:
  "((\<forall>m \<in> set history. timestamp m \<le> lastHistoryTs history) \<longrightarrow>
      mergeHistory c history (mergeHistory c history s) = mergeHistory c history s) \<and>
   (sortedByTimestamp history \<longrightarrow>
      mergeHistory c history (mergeHistory c history s) = mergeHistory c history s) \<and>
   (s c \<noteq> None \<and> s' c \<noteq> None \<and> messagesOf s c = messagesOf s' c \<longrightarrow>
      messagesOf (mergeHistory c history s) c = messagesOf (mergeHistory c history s') c)"
proof -
  have a: "mergeHistory c history (mergeHistory c history s) = mergeHistory c history s"
    if h: "\<forall>m \<in> set history. timestamp m \<le> lastHistoryTs history"
  proof (cases "s c")
    case None
    then show ?thesis by (simp add: mergeHistory_def)
  next
    case (Some e)
    then show ?thesis
      using mergeMessages_idem [OF h] by (simp add: mergeHistory_def)
  qed
  have "\<forall>m \<in> set history. timestamp m \<le> lastHistoryTs history" if "sortedByTimestamp history"
    using sorted_le_lastHistoryTs [OF that] by blast
  then show ?thesis
    using a by (auto simp: messagesOf_mergeHistory)
qed

theorem merge_idempotent_for_ordered_history_witness:
  "list_all (\<lambda>m. timestamp m \<le> lastHistoryTs (map toChatMessage c2_rows)) (map toChatMessage c2_rows) \<and>
   sortedByTimestamp (map toChatMessage c2_rows) \<and>
   messagesOf (mergeHistory ''c2'' (map toChatMessage c2_rows) c2_state) ''c2'' = map toChatMessage c2_rows \<and>
   mergeHistory ''c2'' (map toChatMessage c2_rows) (mergeHistory ''c2'' (map toChatMessage c2_rows) c2_state)
     = mergeHistory ''c2'' (map toChatMessage c2_rows) c2_state \<and>
   c2_state ''c2'' \<noteq> None \<and> setTyping ''c2'' True c2_state ''c2'' \<noteq> None \<and>
   messagesOf c2_state ''c2'' = messagesOf (setTyping ''c2'' True c2_state) ''c2'' \<and>
   messagesOf (mergeHistory ''c2'' (map toChatMessage c2_rows) c2_state) ''c2'' =
     messagesOf (mergeHistory ''c2'' (map toChatMessage c2_rows) (setTyping ''c2'' True c2_state)) ''c2''"
proof -
  have s: "sortedByTimestamp (map toChatMessage c2_rows)"
    by (simp add: sortedByTimestamp_def c2_rows_def toChatMessage_def)
  have l: "\<forall>m \<in> set (map toChatMessage c2_rows). timestamp m \<le> lastHistoryTs (map toChatMessage c2_rows)"
    by (simp add: lastHistoryTs_def c2_rows_def toChatMessage_def)
  have m: "messagesOf (mergeHistory ''c2'' (map toChatMessage c2_rows) c2_state) ''c2'' = map toChatMessage c2_rows"
    by (simp add: eval_simps scenario_defs)
  have d: "c2_state ''c2'' \<noteq> None" "setTyping ''c2'' True c2_state ''c2'' \<noteq> None"
    by (simp_all add: c2_state_def setTyping_def)
  have e: "messagesOf c2_state ''c2'' = messagesOf (setTyping ''c2'' True c2_state) ''c2''"
    by (simp add: messagesOf_setTyping)
  note th = merge_idempotent_for_ordered_history [where history = "map toChatMessage c2_rows"
      and c = "''c2''" and s = c2_state and s' = "setTyping ''c2'' True c2_state"]
  have i: "mergeHistory ''c2'' (map toChatMessage c2_rows) (mergeHistory ''c2'' (map toChatMessage c2_rows) c2_state)
     = mergeHistory ''c2'' (map toChatMessage c2_rows) c2_state"
    using th s by blast
  have f: "messagesOf (mergeHistory ''c2'' (map toChatMessage c2_rows) c2_state) ''c2'' =
     messagesOf (mergeHistory ''c2'' (map toChatMessage c2_rows) (setTyping ''c2'' True c2_state)) ''c2''"
    using th d e by blast
  show ?thesis
    using s l m i d e f by (simp add: list_all_iff)
qed

section \<open>Frames and handlers\<close>

text \<open>
  Claim C6, as the code has it. A frame that arrives on an open source, for an
  event type that the source has a listener for and the handler table has a
  handler for, calls that handler: with the parsed value when the data parses,
  and with the raw data when it does not. Such a frame is never dropped: the log
  of the calls grows. When the handler throws on the parsed value it is called
  once more, with the raw data. A connect gives the new source a listener for
  every type that has a handler then, and a frame of a type that the source has
  no listener for calls nothing. While every render keeps the key set of the
  handler table, every open source has a listener for every type that has a
  handler.
\<close>

theorem frame_invokes_registered_handler:
  "(isOpen i cl \<and> event_type event \<in> listeners (sources cl ! i) \<and>
    handlersRef cl (event_type event) = Some h \<longrightarrow>
      (\<exists>cl'. clientStep jsonParse throws cl (Frame i event) = Some cl' \<and>
         (\<forall>v. jsonParse (data event) = Some v \<longrightarrow>
            invoked cl' = invoked cl @
              (if throws h (Parsed v) then [(h, Parsed v), (h, Raw (data event))] else [(h, Parsed v)])) \<and>
         (jsonParse (data event) = None \<longrightarrow> invoked cl' = invoked cl @ [(h, Raw (data event))]) \<and>
         invoked cl' \<noteq> invoked cl)) \<and>
   (handlersRef cl t = Some h \<longrightarrow>
      isOpen (length (sources cl)) (connect cl) \<and>
      t \<in> listeners (sources (connect cl) ! length (sources cl)) \<and>
      handlersRef (connect cl) t = Some h) \<and>
   (isOpen i cl \<and> event_type event \<notin> listeners (sources cl ! i) \<longrightarrow>
      clientStep jsonParse throws cl (Frame i event) = Some cl) \<and>
   (clientRun jsonParse throws (effect True (initialClient handlers)) es = Some cl \<and>
    (\<forall>e \<in> set es. keepsKeys (dom handlers) e) \<and> isOpen i cl \<and>
    handlersRef cl (event_type event) = Some h \<longrightarrow>
      event_type event \<in> listeners (sources cl ! i))"
proof (intro conjI impI)
  assume a: "isOpen i cl \<and> event_type event \<in> listeners (sources cl ! i) \<and>
    handlersRef cl (event_type event) = Some h"
  define cl' where "cl' = listener jsonParse throws (event_type event) event cl"
  have s: "clientStep jsonParse throws cl (Frame i event) = Some cl'"
    using a by (simp add: cl'_def)
  have i: "invoked cl' = invoked cl @
       (case jsonParse (data event) of
          None \<Rightarrow> [(h, Raw (data event))]
        | Some v \<Rightarrow> (if throws h (Parsed v) then [(h, Parsed v), (h, Raw (data event))] else [(h, Parsed v)]))"
    unfolding cl'_def using a by (simp add: invoked_listener)
  have p: "\<forall>v. jsonParse (data event) = Some v \<longrightarrow>
            invoked cl' = invoked cl @
              (if throws h (Parsed v) then [(h, Parsed v), (h, Raw (data event))] else [(h, Parsed v)])"
    using i by simp
  have r: "jsonParse (data event) = None \<longrightarrow> invoked cl' = invoked cl @ [(h, Raw (data event))]"
    using i by simp
  have n: "invoked cl' \<noteq> invoked cl"
    using i by (simp split: option.splits)
  show "\<exists>cl'. clientStep jsonParse throws cl (Frame i event) = Some cl' \<and>
         (\<forall>v. jsonParse (data event) = Some v \<longrightarrow>
            invoked cl' = invoked cl @
              (if throws h (Parsed v) then [(h, Parsed v), (h, Raw (data event))] else [(h, Parsed v)])) \<and>
         (jsonParse (data event) = None \<longrightarrow> invoked cl' = invoked cl @ [(h, Raw (data event))]) \<and>
         invoked cl' \<noteq> invoked cl"
    by (rule exI [of _ cl'], intro conjI) (rule s p r n)+
next
  assume "handlersRef cl t = Some h"
  then show "isOpen (length (sources cl)) (connect cl)"
    and "t \<in> listeners (sources (connect cl) ! length (sources cl))"
    and "handlersRef (connect cl) t = Some h"
    by (auto simp: isOpen_connect connect_fields)
next
  assume "isOpen i cl \<and> event_type event \<notin> listeners (sources cl ! i)"
  then show "clientStep jsonParse throws cl (Frame i event) = Some cl"
    by simp
next
  assume a: "clientRun jsonParse throws (effect True (initialClient handlers)) es = Some cl \<and>
    (\<forall>e \<in> set es. keepsKeys (dom handlers) e) \<and> isOpen i cl \<and>
    handlersRef cl (event_type event) = Some h"
  then have "listenersMatch (dom handlers) cl"
    using listenersMatch_run [OF listenersMatch_initial] by blast
  then show "event_type event \<in> listeners (sources cl ! i)"
    using a by (auto simp: listenersMatch_def)
qed

theorem frame_invokes_registered_handler_witness:
  "handlersRef (initialClient demo_handlers :: (nat, string) Client) ''typing_state'' = Some 3 \<and>
   isOpen 0 demo_client \<and>
   event_type demo_frame \<in> listeners (sources demo_client ! 0) \<and>
   handlersRef demo_client (event_type demo_frame) = Some 3 \<and>
   (\<exists>cl'. clientStep demo_parse demo_throws demo_client (Frame 0 demo_frame) = Some cl' \<and>
      invoked cl' = [(3, Parsed ''{}'')]) \<and>
   (\<exists>cl'. clientStep demo_parse demo_throws demo_client (Frame 0 demo_raw_frame) = Some cl' \<and>
      invoked cl' = [(3, Raw ''not json'')]) \<and>
   (\<exists>cl'. clientStep demo_parse demo_strict_throws demo_client (Frame 0 demo_frame) = Some cl' \<and>
      invoked cl' = [(3, Parsed ''{}''), (3, Raw ''{}'')]) \<and>
   isOpen 0 demo_rendered \<and>
   event_type demo_process_frame \<notin> listeners (sources demo_rendered ! 0) \<and>
   clientStep demo_parse demo_throws demo_rendered (Frame 0 demo_process_frame) = Some demo_rendered \<and>
   (\<exists>cl. clientRun demo_parse demo_throws (effect True (initialClient demo_handlers))
            [Frame 0 demo_frame, Render demo_handlers] = Some cl \<and>
      list_all (keepsKeys (dom demo_handlers)) [Frame 0 demo_frame, Render demo_handlers] \<and>
      isOpen 0 cl \<and> handlersRef cl (event_type demo_frame) = Some 3 \<and>
      event_type demo_frame \<in> listeners (sources cl ! 0))"
proof -
  define c0 :: "(nat, string) Client" where "c0 = initialClient demo_handlers"
  have dc: "demo_client = connect c0"
    by (simp add: demo_client_def effect_def c0_def)
  have l0: "length (sources c0) = 0" and i0: "invoked c0 = []"
    by (simp_all add: c0_def initialClient_def)
  have h0: "handlersRef c0 ''typing_state'' = Some 3"
    by (simp add: c0_def initialClient_def demo_handlers_def)
  have reg: "isOpen 0 demo_client" "''typing_state'' \<in> listeners (sources demo_client ! 0)"
    "handlersRef demo_client ''typing_state'' = Some 3"
    using frame_invokes_registered_handler [where cl = c0 and t = "''typing_state''" and h = 3] h0
    by (simp_all add: dc l0)
  have inv: "invoked demo_client = []"
    by (simp add: dc connect_fields i0)
  have ty: "event_type demo_frame = ''typing_state''" "event_type demo_raw_frame = ''typing_state''"
    by (simp_all add: demo_frame_def demo_raw_frame_def)
  have a: "\<exists>cl'. clientStep demo_parse demo_throws demo_client (Frame 0 demo_frame) = Some cl' \<and>
      invoked cl' = [(3, Parsed ''{}'')]"
    using frame_invokes_registered_handler [where cl = demo_client and i = 0 and event = demo_frame
        and h = 3 and jsonParse = demo_parse and throws = demo_throws] reg ty inv
    by (auto simp: demo_parse_def demo_throws_def demo_frame_def)
  have b: "\<exists>cl'. clientStep demo_parse demo_throws demo_client (Frame 0 demo_raw_frame) = Some cl' \<and>
      invoked cl' = [(3, Raw ''not json'')]"
    using frame_invokes_registered_handler [where cl = demo_client and i = 0 and event = demo_raw_frame
        and h = 3 and jsonParse = demo_parse and throws = demo_throws] reg ty inv
    by (auto simp: demo_parse_def demo_raw_frame_def)
  have c: "\<exists>cl'. clientStep demo_parse demo_strict_throws demo_client (Frame 0 demo_frame) = Some cl' \<and>
      invoked cl' = [(3, Parsed ''{}''), (3, Raw ''{}'')]"
    using frame_invokes_registered_handler [where cl = demo_client and i = 0 and event = demo_frame
        and h = 3 and jsonParse = demo_parse and throws = demo_strict_throws] reg ty inv
    by (auto simp: demo_parse_def demo_strict_throws_def demo_frame_def)
  have li: "listeners (sources demo_client ! 0) = dom demo_handlers"
    using connect_fields(8) [of c0] by (simp add: dc l0 c0_def initialClient_def)
  have ro: "isOpen 0 demo_rendered"
    using reg(1) by (simp add: demo_rendered_def isOpen_handlers_update)
  have rn: "event_type demo_process_frame \<notin> listeners (sources demo_rendered ! 0)"
    by (simp add: demo_rendered_def li demo_process_frame_def demo_handlers_def)
  have d: "clientStep demo_parse demo_throws demo_rendered (Frame 0 demo_process_frame) = Some demo_rendered"
    using frame_invokes_registered_handler [where cl = demo_rendered and i = 0
        and event = demo_process_frame and jsonParse = demo_parse and throws = demo_throws] ro rn
    by blast
  define es :: "nat ClientStep list" where "es = [Frame 0 demo_frame, Render demo_handlers]"
  define cl where "cl = (listener demo_parse demo_throws (event_type demo_frame) demo_frame demo_client)
      \<lparr>handlersRef := demo_handlers\<rparr>"
  have r: "clientRun demo_parse demo_throws (effect True (initialClient demo_handlers)) es = Some cl"
    using reg(1,2) ty by (simp add: es_def cl_def demo_client_def [symmetric])
  have k: "\<forall>e \<in> set es. keepsKeys (dom demo_handlers) e"
    by (simp add: es_def)
  have o: "isOpen 0 cl"
    using reg(1) by (simp add: cl_def isOpen_handlers_update isOpen_listener)
  have h: "handlersRef cl (event_type demo_frame) = Some 3"
    by (simp add: cl_def ty demo_handlers_def)
  have e: "event_type demo_frame \<in> listeners (sources cl ! 0)"
    using frame_invokes_registered_handler [where handlers = demo_handlers and es = es and cl = cl
        and i = 0 and event = demo_frame and h = 3 and jsonParse = demo_parse and throws = demo_throws]
      r k o h
    by blast
  have f: "\<exists>cl. clientRun demo_parse demo_throws (effect True (initialClient demo_handlers))
            [Frame 0 demo_frame, Render demo_handlers] = Some cl \<and>
      list_all (keepsKeys (dom demo_handlers)) [Frame 0 demo_frame, Render demo_handlers] \<and>
      isOpen 0 cl \<and> handlersRef cl (event_type demo_frame) = Some 3 \<and>
      event_type demo_frame \<in> listeners (sources cl ! 0)"
    using r k o h e unfolding es_def by (auto simp: list_all_iff)
  show ?thesis
    using h0 reg ty a b c ro rn d f unfolding c0_def by simp
qed

text \<open>
  The claim as it is written fails. The listeners are added when the source is
  opened, and the table is read when a frame arrives. After the mount a render
  stores a table with a handler for \<^verbatim>\<open>process_event\<close>; the source is open and
  the table has the handler, but the source has no listener for the type: a
  frame of the type, with data that parses, calls nothing.
\<close>

theorem frame_without_listener_counterexample:
  "clientRun demo_parse demo_throws (effect True (initialClient demo_handlers))
     [Render demo_late_handlers] = Some demo_rendered \<and>
   isOpen 0 demo_rendered \<and>
   handlersRef demo_rendered (event_type demo_process_frame) = Some 4 \<and>
   demo_parse (data demo_process_frame) = Some ''{}'' \<and>
   clientRun demo_parse demo_throws (effect True (initialClient demo_handlers))
     [Render demo_late_handlers, Frame 0 demo_process_frame] = Some demo_rendered \<and>
   invoked demo_rendered = []"
proof -
  define c0 :: "(nat, string) Client" where "c0 = initialClient demo_handlers"
  have dc: "demo_client = connect c0"
    by (simp add: demo_client_def effect_def c0_def)
  have z: "length (sources c0) = 0" "invoked c0 = []" "handlersRef c0 = demo_handlers"
    by (simp_all add: c0_def initialClient_def)
  have o: "isOpen 0 demo_client"
    by (simp add: dc isOpen_connect z)
  have li: "listeners (sources demo_client ! 0) = dom demo_handlers"
    using connect_fields(8) [of c0] by (simp add: dc z)
  have iv: "invoked demo_client = []"
    by (simp add: dc connect_fields z)
  have r1: "clientRun demo_parse demo_throws (effect True (initialClient demo_handlers))
     [Render demo_late_handlers] = Some demo_rendered"
    by (simp add: demo_rendered_def demo_client_def)
  have ro: "isOpen 0 demo_rendered"
    using o by (simp add: demo_rendered_def isOpen_handlers_update)
  have h: "handlersRef demo_rendered (event_type demo_process_frame) = Some 4"
    by (simp add: demo_rendered_def demo_late_handlers_def demo_process_frame_def)
  have p: "demo_parse (data demo_process_frame) = Some ''{}''"
    by (simp add: demo_parse_def demo_process_frame_def)
  have rn: "event_type demo_process_frame \<notin> listeners (sources demo_rendered ! 0)"
    by (simp add: demo_rendered_def li demo_process_frame_def demo_handlers_def)
  have s: "clientStep demo_parse demo_throws demo_rendered (Frame 0 demo_process_frame) = Some demo_rendered"
    using ro rn by simp
  have s0: "clientStep demo_parse demo_throws (effect True (initialClient demo_handlers))
     (Render demo_late_handlers) = Some demo_rendered"
    by (simp add: demo_rendered_def demo_client_def)
  have r2: "clientRun demo_parse demo_throws (effect True (initialClient demo_handlers))
     [Render demo_late_handlers, Frame 0 demo_process_frame] = Some demo_rendered"
    by (simp only: clientRun.simps s0 s option.case)
  have i: "invoked demo_rendered = []"
    using iv by (simp add: demo_rendered_def)
  show ?thesis
    using r1 ro h p r2 i by blast
qed



section \<open>Reconnect and teardown\<close>

text \<open>
  Claim C9. In every state the mounted client reaches: when an open source
  fails, the source is closed, no source is open, and exactly one timer is
  pending, with a delay of 2000 milliseconds; when that timer fires, a new
  source is opened with a listener for every key of the handler table, and a
  frame for a type that had a handler before the failure calls that handler.
  After the cleanup no source is open and no timer is pending, no frame, error
  or timer can come, and the log of the handler calls never grows again.
\<close>

theorem reconnect_and_teardown:
  "clientRun jsonParse throws (effect True (initialClient handlers)) es = Some cl \<longrightarrow>
     (isOpen i cl \<longrightarrow>
        (\<exists>cl1 cl2. clientStep jsonParse throws cl (ConnectionError i) = Some cl1 \<and>
           (\<forall>j. \<not> isOpen j cl1) \<and>
           timers cl1 = [(nextTimer cl, 2000)] \<and>
           reconnectTimeout cl1 = Some (nextTimer cl) \<and>
           clientStep jsonParse throws cl1 (TimerFires (nextTimer cl)) = Some cl2 \<and>
           timers cl2 = [] \<and>
           handlersRef cl2 = handlersRef cl \<and>
           eventSourceRef cl2 = Some (length (sources cl)) \<and>
           isOpen (length (sources cl)) cl2 \<and>
           listeners (sources cl2 ! length (sources cl)) = dom (handlersRef cl) \<and>
           (\<forall>(event :: MessageEvent) h. handlersRef cl (event_type event) = Some h \<longrightarrow>
              (\<exists>cl3 p rest.
                 clientStep jsonParse throws cl2 (Frame (length (sources cl)) event) = Some cl3 \<and>
                 invoked cl3 = invoked cl2 @ (h, p) # rest)))) \<and>
     (\<forall>j. \<not> isOpen j (cleanup cl)) \<and>
     timers (cleanup cl) = [] \<and>
     (\<forall>j event. clientStep jsonParse throws (cleanup cl) (Frame j event) = None) \<and>
     (\<forall>j. clientStep jsonParse throws (cleanup cl) (ConnectionError j) = None) \<and>
     (\<forall>t. clientStep jsonParse throws (cleanup cl) (TimerFires t) = None) \<and>
     (\<forall>es' cl'. clientRun jsonParse throws (cleanup cl) es' = Some cl' \<longrightarrow> invoked cl' = invoked cl)"
proof
  assume r: "clientRun jsonParse throws (effect True (initialClient handlers)) es = Some cl"
  have inv: "clientInv cl"
    using clientInv_run [OF clientInv_initial r] .
  have first: "isOpen i cl \<longrightarrow> (\<exists>cl1 cl2. clientStep jsonParse throws cl (ConnectionError i) = Some cl1 \<and>
           (\<forall>j. \<not> isOpen j cl1) \<and>
           timers cl1 = [(nextTimer cl, 2000)] \<and>
           reconnectTimeout cl1 = Some (nextTimer cl) \<and>
           clientStep jsonParse throws cl1 (TimerFires (nextTimer cl)) = Some cl2 \<and>
           timers cl2 = [] \<and>
           handlersRef cl2 = handlersRef cl \<and>
           eventSourceRef cl2 = Some (length (sources cl)) \<and>
           isOpen (length (sources cl)) cl2 \<and>
           listeners (sources cl2 ! length (sources cl)) = dom (handlersRef cl) \<and>
           (\<forall>(event :: MessageEvent) h. handlersRef cl (event_type event) = Some h \<longrightarrow>
              (\<exists>cl3 p rest.
                 clientStep jsonParse throws cl2 (Frame (length (sources cl)) event) = Some cl3 \<and>
                 invoked cl3 = invoked cl2 @ (h, p) # rest)))"
  proof
    assume o: "isOpen i cl"
    define cl1 where "cl1 = onerror i cl"
    define cl0 where "cl0 = cl1\<lparr>timers := clearTimeout (nextTimer cl) (timers cl1)\<rparr>"
    define cl2 where "cl2 = connect cl0"
    have s1: "clientStep jsonParse throws cl (ConnectionError i) = Some cl1"
      using o by (simp add: cl1_def)
    have inv1: "clientInv cl1" and t1: "timers cl1 = [(nextTimer cl, 2000)]"
      and c1: "\<forall>j. \<not> isOpen j cl1"
      unfolding cl1_def using clientInv_onerror [OF inv o] by simp_all
    have r1: "reconnectTimeout cl1 = Some (nextTimer cl)"
      by (simp add: cl1_def onerror_fields)
    have p: "nextTimer cl \<in> fst ` set (timers cl1)"
      by (simp add: t1)
    have s2: "clientStep jsonParse throws cl1 (TimerFires (nextTimer cl)) = Some cl2"
      using p by (simp add: cl2_def cl0_def)
    have t2: "timers cl2 = []"
      unfolding cl2_def cl0_def using clientInv_timer(2) [OF inv1 p] .
    have h0: "handlersRef cl0 = handlersRef cl" and l0: "length (sources cl0) = length (sources cl)"
      by (simp_all add: cl0_def cl1_def onerror_fields)
    have h2: "handlersRef cl2 = handlersRef cl"
      by (simp add: cl2_def connect_fields h0)
    have e2: "eventSourceRef cl2 = Some (length (sources cl))"
      by (simp add: cl2_def connect_fields l0)
    have o2: "isOpen (length (sources cl)) cl2"
      by (simp add: cl2_def isOpen_connect l0)
    have l2: "listeners (sources cl2 ! length (sources cl)) = dom (handlersRef cl)"
      using connect_fields(8) [of cl0] by (simp add: cl2_def l0 h0)
    have f: "\<forall>(event :: MessageEvent) h. handlersRef cl (event_type event) = Some h \<longrightarrow>
              (\<exists>cl3 p rest.
                 clientStep jsonParse throws cl2 (Frame (length (sources cl)) event) = Some cl3 \<and>
                 invoked cl3 = invoked cl2 @ (h, p) # rest)"
    proof (intro allI impI)
      fix event :: MessageEvent and h
      assume h: "handlersRef cl (event_type event) = Some h"
      define cl3 where "cl3 = listener jsonParse throws (event_type event) event cl2"
      have s3: "clientStep jsonParse throws cl2 (Frame (length (sources cl)) event) = Some cl3"
        using o2 l2 h by (auto simp: cl3_def)
      have "handlersRef cl2 (event_type event) = Some h"
        using h h2 by simp
      then have "\<exists>p rest. invoked cl3 = invoked cl2 @ (h, p) # rest"
        unfolding cl3_def by (simp add: invoked_listener split: option.splits)
      then show "\<exists>cl3 p rest.
                 clientStep jsonParse throws cl2 (Frame (length (sources cl)) event) = Some cl3 \<and>
                 invoked cl3 = invoked cl2 @ (h, p) # rest"
        using s3 by blast
    qed
    show "\<exists>cl1 cl2. clientStep jsonParse throws cl (ConnectionError i) = Some cl1 \<and>
           (\<forall>j. \<not> isOpen j cl1) \<and>
           timers cl1 = [(nextTimer cl, 2000)] \<and>
           reconnectTimeout cl1 = Some (nextTimer cl) \<and>
           clientStep jsonParse throws cl1 (TimerFires (nextTimer cl)) = Some cl2 \<and>
           timers cl2 = [] \<and>
           handlersRef cl2 = handlersRef cl \<and>
           eventSourceRef cl2 = Some (length (sources cl)) \<and>
           isOpen (length (sources cl)) cl2 \<and>
           listeners (sources cl2 ! length (sources cl)) = dom (handlersRef cl) \<and>
           (\<forall>(event :: MessageEvent) h. handlersRef cl (event_type event) = Some h \<longrightarrow>
              (\<exists>cl3 p rest.
                 clientStep jsonParse throws cl2 (Frame (length (sources cl)) event) = Some cl3 \<and>
                 invoked cl3 = invoked cl2 @ (h, p) # rest))"
      by (rule exI [of _ cl1], rule exI [of _ cl2], intro conjI) (rule s1 c1 t1 r1 s2 t2 h2 e2 o2 l2 f)+
  qed
  have st: "stopped (cleanup cl)"
    using inv by (rule stopped_cleanup)
  then have c: "\<forall>j. \<not> isOpen j (cleanup cl)" and t: "timers (cleanup cl) = []"
    by (simp_all add: stopped_def)
  have fr: "\<forall>j event. clientStep jsonParse throws (cleanup cl) (Frame j event) = None"
    using c by simp
  have er: "\<forall>j. clientStep jsonParse throws (cleanup cl) (ConnectionError j) = None"
    using c by simp
  have ti: "\<forall>t. clientStep jsonParse throws (cleanup cl) (TimerFires t) = None"
    using t by simp
  have i: "invoked (cleanup cl) = invoked cl"
    by (simp add: cleanup_def)
  have after: "\<forall>es' cl'. clientRun jsonParse throws (cleanup cl) es' = Some cl' \<longrightarrow> invoked cl' = invoked cl"
    using stopped_run [OF st] i by auto
  show "(isOpen i cl \<longrightarrow>
        (\<exists>cl1 cl2. clientStep jsonParse throws cl (ConnectionError i) = Some cl1 \<and>
           (\<forall>j. \<not> isOpen j cl1) \<and>
           timers cl1 = [(nextTimer cl, 2000)] \<and>
           reconnectTimeout cl1 = Some (nextTimer cl) \<and>
           clientStep jsonParse throws cl1 (TimerFires (nextTimer cl)) = Some cl2 \<and>
           timers cl2 = [] \<and>
           handlersRef cl2 = handlersRef cl \<and>
           eventSourceRef cl2 = Some (length (sources cl)) \<and>
           isOpen (length (sources cl)) cl2 \<and>
           listeners (sources cl2 ! length (sources cl)) = dom (handlersRef cl) \<and>
           (\<forall>(event :: MessageEvent) h. handlersRef cl (event_type event) = Some h \<longrightarrow>
              (\<exists>cl3 p rest.
                 clientStep jsonParse throws cl2 (Frame (length (sources cl)) event) = Some cl3 \<and>
                 invoked cl3 = invoked cl2 @ (h, p) # rest)))) \<and>
     (\<forall>j. \<not> isOpen j (cleanup cl)) \<and>
     timers (cleanup cl) = [] \<and>
     (\<forall>j event. clientStep jsonParse throws (cleanup cl) (Frame j event) = None) \<and>
     (\<forall>j. clientStep jsonParse throws (cleanup cl) (ConnectionError j) = None) \<and>
     (\<forall>t. clientStep jsonParse throws (cleanup cl) (TimerFires t) = None) \<and>
     (\<forall>es' cl'. clientRun jsonParse throws (cleanup cl) es' = Some cl' \<longrightarrow> invoked cl' = invoked cl)"
    by (intro conjI) (rule first c t fr er ti after)+
qed

theorem reconnect_and_teardown_witness:
  "\<exists>cl cl1 cl2 cl3 cl4 p rest.
     clientRun demo_parse demo_throws (effect True (initialClient demo_handlers))
       [Frame 0 demo_frame, Render demo_handlers] = Some cl \<and>
     isOpen 0 cl \<and>
     clientStep demo_parse demo_throws cl (ConnectionError 0) = Some cl1 \<and>
     \<not> isOpen 0 cl1 \<and>
     timers cl1 = [(1, 2000)] \<and>
     clientStep demo_parse demo_throws cl1 (TimerFires 1) = Some cl2 \<and>
     timers cl2 = [] \<and>
     isOpen 1 cl2 \<and>
     handlersRef cl (event_type demo_raw_frame) = Some 3 \<and>
     clientStep demo_parse demo_throws cl2 (Frame 1 demo_raw_frame) = Some cl3 \<and>
     invoked cl3 = invoked cl2 @ (3, p) # rest \<and>
     \<not> isOpen 1 (cleanup cl2) \<and>
     timers (cleanup cl1) = [] \<and>
     clientStep demo_parse demo_throws (cleanup cl1) (TimerFires 1) = None \<and>
     clientStep demo_parse demo_throws (cleanup cl2) (Frame 1 demo_raw_frame) = None \<and>
     clientRun demo_parse demo_throws (cleanup cl2) [Render demo_handlers] = Some cl4 \<and>
     invoked cl4 = invoked cl2"
proof -
  define start :: "(nat, string) Client" where "start = effect True (initialClient demo_handlers)"
  define es :: "nat ClientStep list" where "es = [Frame 0 demo_frame, Render demo_handlers]"
  have st: "start = demo_client"
    by (simp add: start_def demo_client_def)
  define c0 :: "(nat, string) Client" where "c0 = initialClient demo_handlers"
  have sc: "start = connect c0"
    by (simp add: start_def effect_def c0_def)
  have z: "length (sources c0) = 0" "nextTimer c0 = 1" "handlersRef c0 = demo_handlers"
    by (simp_all add: c0_def initialClient_def)
  have o0: "isOpen 0 start" and n0: "nextTimer start = 1" and l0: "length (sources start) = 1"
    by (simp_all add: sc isOpen_connect connect_fields z)
  have li: "listeners (sources start ! 0) = dom demo_handlers"
    using connect_fields(8) [of c0] by (simp add: sc z)
  define cl where "cl = (if event_type demo_frame \<in> listeners (sources start ! 0)
                 then listener demo_parse demo_throws (event_type demo_frame) demo_frame start
                 else start)\<lparr>handlersRef := demo_handlers\<rparr>"
  have r: "clientRun demo_parse demo_throws start es = Some cl"
    using o0 by (simp add: es_def cl_def)
  have o: "isOpen 0 cl" and n: "nextTimer cl = 1" and l: "length (sources cl) = 1"
    and h: "handlersRef cl (event_type demo_raw_frame) = Some 3"
    using o0 n0 l0
    by (simp_all add: cl_def isOpen_handlers_update isOpen_listener listener_fields
        demo_handlers_def demo_raw_frame_def)
  note th = reconnect_and_teardown [where jsonParse = demo_parse and throws = demo_throws
      and handlers = demo_handlers]
  from th [where es = es and cl = cl and i = 0] r o
  obtain cl1 cl2 where s1: "clientStep demo_parse demo_throws cl (ConnectionError 0) = Some cl1"
    and c1: "\<forall>j. \<not> isOpen j cl1"
    and t1: "timers cl1 = [(nextTimer cl, 2000)]"
    and s2: "clientStep demo_parse demo_throws cl1 (TimerFires (nextTimer cl)) = Some cl2"
    and t2: "timers cl2 = []"
    and o2: "isOpen (length (sources cl)) cl2"
    and f: "\<forall>(event :: MessageEvent) h. handlersRef cl (event_type event) = Some h \<longrightarrow>
              (\<exists>cl3 p rest.
                 clientStep demo_parse demo_throws cl2 (Frame (length (sources cl)) event) = Some cl3 \<and>
                 invoked cl3 = invoked cl2 @ (h, p) # rest)"
    unfolding start_def by blast
  from f h obtain cl3 p rest
    where s3: "clientStep demo_parse demo_throws cl2 (Frame (length (sources cl)) demo_raw_frame) = Some cl3"
      and i3: "invoked cl3 = invoked cl2 @ (3, p) # rest"
    by blast
  have r1: "clientRun demo_parse demo_throws start (es @ [ConnectionError 0]) = Some cl1"
    by (simp add: clientRun_append r s1 del: clientStep.simps)
  have r2: "clientRun demo_parse demo_throws start (es @ [ConnectionError 0, TimerFires 1]) = Some cl2"
    using s2 [unfolded n] by (simp add: clientRun_append r s1 del: clientStep.simps)
  have d1: "timers (cleanup cl1) = []"
    and d1': "clientStep demo_parse demo_throws (cleanup cl1) (TimerFires 1) = None"
    using th [where es = "es @ [ConnectionError 0]" and cl = cl1] r1
    unfolding start_def by blast+
  have d2: "\<not> isOpen 1 (cleanup cl2)"
    and d2': "clientStep demo_parse demo_throws (cleanup cl2) (Frame 1 demo_raw_frame) = None"
    using th [where es = "es @ [ConnectionError 0, TimerFires 1]" and cl = cl2] r2
    unfolding start_def by blast+
  define cl4 where "cl4 = cleanup cl2\<lparr>handlersRef := demo_handlers\<rparr>"
  have r4: "clientRun demo_parse demo_throws (cleanup cl2) [Render demo_handlers] = Some cl4"
    by (simp add: cl4_def)
  have i4: "invoked cl4 = invoked cl2"
    using th [where es = "es @ [ConnectionError 0, TimerFires 1]" and cl = cl2] r2 r4
    unfolding start_def by blast
  show ?thesis
    using r o s1 c1 t1 s2 t2 o2 h s3 i3 d1 d1' d2 d2' r4 i4
    unfolding start_def es_def n l by blast
qed

end
